theory Spec2Isabelle
  imports Main "HOL-Library.Sublist" "HOL-Library.List_Lexorder"
begin

section \<open>Strings\<close>

text \<open>
  A JavaScript string is a sequence of UTF-16 code units. A code unit is a natural number
  here; the embedding never needs the bound \<open>< 65536\<close>. \<open>str\<close> reads an ASCII literal
  as such a sequence.
\<close>

type_synonym jsstring = "nat list"

definition str :: "string \<Rightarrow> jsstring" where
  "str s = map of_char s"

text \<open>
  The class \<open>\s\<close> of a regular expression and the characters removed by
  \<open>String.prototype.trim\<close> are the same set: WhiteSpace and LineTerminator of ECMAScript.
\<close>

definition is_space :: "nat \<Rightarrow> bool" where
  "is_space c =
     (c \<in> {9, 10, 11, 12, 13, 32, 160, 5760, 8232, 8233, 8239, 8287, 12288, 65279}
      \<or> (8192 \<le> c \<and> c \<le> 8202))"

definition trim :: "jsstring \<Rightarrow> jsstring" where
  "trim s = rev (dropWhile is_space (rev (dropWhile is_space s)))"

text \<open>\<open>Array.prototype.join\<close> on an array of strings.\<close>

fun join :: "jsstring \<Rightarrow> jsstring list \<Rightarrow> jsstring" where
  "join sep [] = []"
| "join sep [x] = x"
| "join sep (x # y # ys) = x @ sep @ join sep (y # ys)"

section \<open>quote\<close>

text \<open>
  \<^verbatim>\<open>function quote (str) { return str.replace(/[.?*+^$[\]\\(){}|-]/g, '\\$&') }\<close>

  The class lists fifteen characters; each occurrence is replaced by a backslash (92)
  followed by the character itself.
\<close>

definition escape_set :: "nat list" where
  "escape_set = [46, 63, 42, 43, 94, 36, 91, 93, 92, 40, 41, 123, 125, 124, 45]"

definition quote :: "jsstring \<Rightarrow> jsstring" where
  "quote s = concat (map (\<lambda>c. if c \<in> set escape_set then [92, c] else [c]) s)"

section \<open>Regular expressions\<close>

text \<open>
  The patterns this program builds and the default separator \<^verbatim>\<open>/\s+/\<close> use literals,
  \<open>\s\<close>, the assertions \<open>^\<close> and \<open>$\<close> (no \<open>m\<close> flag), sequence, alternation, a group and
  \<open>+\<close>. Captures are not tracked: the program only uses its grouped pattern with the
  \<open>g\<close> flag, where \<open>match\<close> returns whole matches and \<open>replace\<close> by the empty string
  ignores the groups. \<open>r+\<close> is \<open>Seq r (Star r)\<close>.
\<close>

datatype regex =
    Empty
  | Lit nat
  | Space
  | Bol
  | Eol
  | Seq regex regex
  | Alt regex regex
  | Star regex

text \<open>
  A position in the subject string is the text that remains and whether the position is
  index 0. \<open>ends r p\<close> lists the positions at which a match of \<open>r\<close> starting at \<open>p\<close> can
  end, in the order in which the backtracking matcher of ECMAScript tries them; the match
  it reports is the first. An iteration of \<open>Star\<close> that consumes nothing is rejected, as
  RepeatMatcher does.
\<close>

type_synonym pos = "bool \<times> jsstring"

function ends :: "regex \<Rightarrow> pos \<Rightarrow> pos list" where
  "ends Empty p = [p]"
| "ends (Lit c) p =
     (case snd p of [] \<Rightarrow> [] | d # ds \<Rightarrow> if d = c then [(False, ds)] else [])"
| "ends Space p =
     (case snd p of [] \<Rightarrow> [] | d # ds \<Rightarrow> if is_space d then [(False, ds)] else [])"
| "ends Bol p = (if fst p then [p] else [])"
| "ends Eol p = (if snd p = [] then [p] else [])"
| "ends (Seq a b) p = concat (map (ends b) (ends a p))"
| "ends (Alt a b) p = ends a p @ ends b p"
| "ends (Star a) p =
     concat (map (ends (Star a))
               (filter (\<lambda>q. length (snd q) < length (snd p)) (ends a p))) @ [p]"
  by pat_completeness auto
termination
  by (relation "inv_image (less_than <*lex*> less_than) (\<lambda>(r, p). (size r, length (snd p)))")
    auto

text \<open>The equation of \<open>Star\<close> unfolds into itself: it is applied by hand.\<close>

lemmas ends_Star = ends.simps(8)

declare ends.simps(8) [simp del]

lemma ends_suffix: "q \<in> set (ends r p) \<Longrightarrow> suffix (snd q) (snd p)"
proof (induction r p arbitrary: q rule: ends.induct)
  case (6 a b p)
  then obtain m where m: "m \<in> set (ends a p)" "q \<in> set (ends b m)"
    by auto
  from 6 m have "suffix (snd m) (snd p)" "suffix (snd q) (snd m)"
    by blast+
  then show ?case
    by (rule_tac suffix_order.trans)
next
  case (8 a p)
  show ?case
  proof (cases "q = p")
    case True
    then show ?thesis by simp
  next
    case False
    from 8(3) False obtain m where m: "m \<in> set (ends a p)" "length (snd m) < length (snd p)"
      "q \<in> set (ends (Star a) m)"
      by (auto simp: ends_Star [of a p])
    from 8(1) [OF m(1)] 8(2) [of m q] m have "suffix (snd m) (snd p)" "suffix (snd q) (snd m)"
      by simp_all
    then show ?thesis
      by (rule_tac suffix_order.trans)
  qed
qed (auto simp: suffix_Cons split: list.splits if_splits)

lemma ends_length: "q \<in> set (ends r p) \<Longrightarrow> length (snd q) \<le> length (snd p)"
  by (drule ends_suffix) (rule suffix_length_le)

text \<open>
  The search of RegExpBuiltinExec: try the position, and on failure advance by one code
  unit until the end of the string has been tried. The result is the text remaining at
  the start and at the end of the match.
\<close>

fun search :: "regex \<Rightarrow> bool \<Rightarrow> jsstring \<Rightarrow> (jsstring \<times> jsstring) option" where
  "search r at0 [] = (case ends r (at0, []) of [] \<Rightarrow> None | e # _ \<Rightarrow> Some ([], snd e))"
| "search r at0 (c # cs) =
     (case ends r (at0, c # cs) of
        [] \<Rightarrow> search r False cs
      | e # _ \<Rightarrow> Some (c # cs, snd e))"

lemma search_suffix: "search r at0 s = Some (b, e) \<Longrightarrow> suffix b s \<and> suffix e b"
proof (induction r at0 s rule: search.induct)
  case (1 r at0)
  then show ?case
    using ends_suffix [of _ r "(at0, [])"] by (auto split: list.splits)
next
  case (2 r at0 c cs)
  show ?case
  proof (cases "ends r (at0, c # cs)")
    case Nil
    with 2 show ?thesis by (auto simp: suffix_Cons)
  next
    case (Cons x xs)
    with 2 ends_suffix [of x r "(at0, c # cs)"] show ?thesis by auto
  qed
qed

lemma search_length:
  "search r at0 s = Some (b, e) \<Longrightarrow> length b \<le> length s \<and> length e \<le> length b"
  by (drule search_suffix) (auto dest: suffix_length_le)

section \<open>Reading a pattern source\<close>

text \<open>
  \<open>new RegExp(source, 'g')\<close> parses its source. The program only passes sources it has
  assembled from \<open>quote\<close> and the fixed pieces \<^verbatim>\<open>^/\<close> and \<^verbatim>\<open>(\s|$)\<close>, so the reader covers
  that syntax: a backslash followed by \<open>s\<close> (115) or by a character of the escape set,
  the assertions, the bar, parentheses and plain characters (a hyphen outside a class is
  one). \<open>None\<close> is a source outside this syntax (a quantifier, a class, a dot, another
  escape) or a syntax error; lemmas
  \<open>lex_quote\<close> and \<open>regexp_of_quote\<close> show that a quoted string is never one.
\<close>

datatype token = TLit nat | TSpace | TBol | TEol | TBar | TOpen | TClose

fun lex :: "jsstring \<Rightarrow> token list option" where
  "lex [] = Some []"
| "lex [c] =
     (if c = 94 then Some [TBol]
      else if c = 36 then Some [TEol]
      else if c = 124 then Some [TBar]
      else if c = 40 then Some [TOpen]
      else if c = 41 then Some [TClose]
      else if c = 45 then Some [TLit c]
      else if c \<in> set escape_set then None
      else Some [TLit c])"
| "lex (c # d # ds) =
     (if c = 92 then
        (if d = 115 then map_option ((#) TSpace) (lex ds)
         else if d \<in> set escape_set then map_option ((#) (TLit d)) (lex ds)
         else None)
      else if c = 94 then map_option ((#) TBol) (lex (d # ds))
      else if c = 36 then map_option ((#) TEol) (lex (d # ds))
      else if c = 124 then map_option ((#) TBar) (lex (d # ds))
      else if c = 40 then map_option ((#) TOpen) (lex (d # ds))
      else if c = 41 then map_option ((#) TClose) (lex (d # ds))
      else if c = 45 then map_option ((#) (TLit c)) (lex (d # ds))
      else if c \<in> set escape_set then None
      else map_option ((#) (TLit c)) (lex (d # ds)))"

text \<open>
  The parser keeps, for the disjunction being read, the alternatives already closed and
  the sequence read so far, and a stack of such pairs for the enclosing groups.
\<close>

type_synonym frame = "regex option \<times> regex"

definition close_alt :: "frame \<Rightarrow> regex" where
  "close_alt f = (case fst f of None \<Rightarrow> snd f | Some a \<Rightarrow> Alt a (snd f))"

fun parse :: "token list \<Rightarrow> frame \<Rightarrow> frame list \<Rightarrow> regex option" where
  "parse [] f stack = (if stack = [] then Some (close_alt f) else None)"
| "parse (TLit c # ts) f stack = parse ts (fst f, Seq (snd f) (Lit c)) stack"
| "parse (TSpace # ts) f stack = parse ts (fst f, Seq (snd f) Space) stack"
| "parse (TBol # ts) f stack = parse ts (fst f, Seq (snd f) Bol) stack"
| "parse (TEol # ts) f stack = parse ts (fst f, Seq (snd f) Eol) stack"
| "parse (TBar # ts) f stack = parse ts (Some (close_alt f), Empty) stack"
| "parse (TOpen # ts) f stack = parse ts (None, Empty) (f # stack)"
| "parse (TClose # ts) f stack =
     (case stack of
        [] \<Rightarrow> None
      | g # stack' \<Rightarrow> parse ts (fst g, Seq (snd g) (close_alt f)) stack')"

definition regexp_of :: "jsstring \<Rightarrow> regex option" where
  "regexp_of src = (case lex src of None \<Rightarrow> None | Some ts \<Rightarrow> parse ts (None, Empty) [])"

section \<open>RegExp objects and the string methods that take one\<close>

text \<open>
  A RegExp object: its pattern, its \<open>g\<close> flag and the mutable \<open>lastIndex\<close>.
  \<open>RegExp.prototype.test\<close> is RegExpBuiltinExec: with \<open>g\<close> the search starts at
  \<open>lastIndex\<close>, a success stores the end of the match there and a failure stores 0;
  without \<open>g\<close> the search starts at 0 and \<open>lastIndex\<close> is left alone.
\<close>

record regexp =
  pat :: regex
  global :: bool
  lastIndex :: nat

definition test :: "regexp \<Rightarrow> jsstring \<Rightarrow> bool \<times> regexp" where
  "test ro s =
     (let start = (if global ro then lastIndex ro else 0) in
      if start > length s then (False, if global ro then ro\<lparr>lastIndex := 0\<rparr> else ro)
      else (case search (pat ro) (start = 0) (drop start s) of
              None \<Rightarrow> (False, if global ro then ro\<lparr>lastIndex := 0\<rparr> else ro)
            | Some (b, e) \<Rightarrow>
                (True, if global ro then ro\<lparr>lastIndex := length s - length e\<rparr> else ro)))"

text \<open>
  The loop shared by \<open>match\<close> and \<open>replace\<close> with a global pattern: search, and after an
  empty match advance by one code unit. \<open>all_matches\<close> collects the matched substrings,
  \<open>remove_matches\<close> the text with every match replaced by the empty string.
\<close>

function all_matches :: "regex \<Rightarrow> bool \<Rightarrow> jsstring \<Rightarrow> jsstring list" where
  "all_matches r at0 s =
     (case search r at0 s of
        None \<Rightarrow> []
      | Some (b, e) \<Rightarrow>
          take (length b - length e) b #
          (if length e < length b then all_matches r False e
           else (case e of [] \<Rightarrow> [] | c # cs \<Rightarrow> all_matches r False cs)))"
  by pat_completeness auto
termination
  by (relation "measure (\<lambda>(r, at0, s). length s)")
    (auto dest!: search_length)

function remove_matches :: "regex \<Rightarrow> bool \<Rightarrow> jsstring \<Rightarrow> jsstring" where
  "remove_matches r at0 s =
     (case search r at0 s of
        None \<Rightarrow> s
      | Some (b, e) \<Rightarrow>
          take (length s - length b) s @
          (if length e < length b then remove_matches r False e
           else (case e of [] \<Rightarrow> [] | c # cs \<Rightarrow> c # remove_matches r False cs)))"
  by pat_completeness auto
termination
  by (relation "measure (\<lambda>(r, at0, s). length s)")
    (auto dest!: search_length)

declare all_matches.simps [simp del] remove_matches.simps [simp del]

text \<open>
  \<open>String.prototype.match\<close>: with \<open>g\<close>, \<open>lastIndex\<close> is set to 0, every match is collected
  and the last, failing search leaves \<open>lastIndex\<close> at 0; the result is \<open>null\<close> when there
  is no match. Without \<open>g\<close> it is one search from 0 (the result array then starts with
  the match; the captures that would follow are not modelled).
\<close>

definition match :: "regexp \<Rightarrow> jsstring \<Rightarrow> jsstring list option \<times> regexp" where
  "match ro s =
     (if global ro then
        (let ms = all_matches (pat ro) True s
         in (if ms = [] then None else Some ms, ro\<lparr>lastIndex := 0\<rparr>))
      else
        (case search (pat ro) True s of
           None \<Rightarrow> (None, ro)
         | Some (b, e) \<Rightarrow> (Some [take (length b - length e) b], ro)))"

text \<open>\<open>s.replace(ro, '')\<close>: every match (the first one without \<open>g\<close>) is removed.\<close>

definition replace_empty :: "regexp \<Rightarrow> jsstring \<Rightarrow> jsstring \<times> regexp" where
  "replace_empty ro s =
     (if global ro then (remove_matches (pat ro) True s, ro\<lparr>lastIndex := 0\<rparr>)
      else
        (case search (pat ro) True s of
           None \<Rightarrow> (s, ro)
         | Some (b, e) \<Rightarrow> (take (length s - length b) s @ e, ro)))"

text \<open>
  \<open>String.prototype.split\<close> with a RegExp separator and no limit. The separator is tried
  at each index \<open>q\<close> below the size, anchored there (the splitter is a sticky copy, so
  the separator object itself is not changed). \<open>acc\<close> is the text between the start \<open>p\<close>
  of the current piece and \<open>q\<close>; a match that ends at \<open>p\<close> is skipped. The empty string
  splits into no piece when the separator matches it and into one empty piece otherwise.
\<close>

function split_loop :: "regex \<Rightarrow> jsstring \<Rightarrow> bool \<Rightarrow> jsstring \<Rightarrow> jsstring list" where
  "split_loop r acc at0 [] = [acc]"
| "split_loop r acc at0 (c # cs) =
     (case ends r (at0, c # cs) of
        [] \<Rightarrow> split_loop r (acc @ [c]) False cs
      | e # _ \<Rightarrow>
          if acc = [] \<and> length (snd e) = Suc (length cs)
          then split_loop r (acc @ [c]) False cs
          else acc # split_loop r [] (fst e) (snd e))"
  by pat_completeness auto
termination
proof (relation "inv_image (less_than <*lex*> less_than)
    (\<lambda>(r, acc, at0, s). (length s, if acc = [] then 0 else (1::nat)))")
  fix r :: regex and acc :: jsstring and at0 :: bool and c :: nat and cs :: jsstring
    and e :: pos and es :: "pos list"
  assume e: "ends r (at0, c # cs) = e # es"
    and n: "\<not> (acc = [] \<and> length (snd e) = Suc (length cs))"
  from e have "e \<in> set (ends r (at0, c # cs))"
    by simp
  then have "length (snd e) \<le> Suc (length cs)"
    by (auto dest: ends_length)
  with n show "((r, [], fst e, snd e), (r, acc, at0, c # cs))
    \<in> inv_image (less_than <*lex*> less_than)
        (\<lambda>(r, acc, at0, s). (length s, if acc = [] then 0 else (1::nat)))"
    by (cases e) auto
qed auto

definition split :: "jsstring \<Rightarrow> regex \<Rightarrow> jsstring list" where
  "split s r =
     (if s = [] then (if ends r (True, []) = [] then [[]] else [])
      else split_loop r [] True s)"

section \<open>Values, functions and the state of the module\<close>

text \<open>
  The values that reach the module are dynamically typed. \<open>RegExp a\<close> is the RegExp object
  at address \<open>a\<close> of the heap: such an object is shared and mutable (\<open>lastIndex\<close>).
\<close>

datatype jsval =
    Undefined
  | Null
  | Bool bool
  | Str jsstring
  | Array "jsstring list"
  | RegExp nat

fun truthy :: "jsval \<Rightarrow> bool" where
  "truthy Undefined = False"
| "truthy Null = False"
| "truthy (Bool b) = b"
| "truthy (Str s) = (s \<noteq> [])"
| "truthy (Array xs) = True"
| "truthy (RegExp a) = True"

text \<open>
  What the code can throw. \<open>Outside\<close> is not an exception of the program: it marks a
  call whose result depends on something this embedding does not carry (the source text of
  a function or of a RegExp turned into a string, a pattern source outside the syntax
  read above). No statement below is about such a call.
\<close>

datatype exn =
    TypeError
  | Error jsstring
  | Thrown nat
  | Outside

text \<open>
  The record \<open>Message\<close>: only \<open>text\<close> (here \<open>msg_text\<close>, as \<open>text\<close> is a keyword) and
  \<open>sender_type\<close> are read.
\<close>

record message =
  msg_text :: jsstring
  sender_type :: jsstring

text \<open>
  A function written by the user of the module is called with no argument (a supplier),
  with the message (\<open>check\<close>, \<open>respond\<close>) or with the message and an array
  (\<open>patternRespond\<close>, \<open>commandRespond\<close>; the array is \<open>null\<close> when \<open>match\<close> found nothing).
  It throws or returns a value, and acts on a state \<open>'u\<close> of its own.
\<close>

datatype call_args = Args0 | Args1 message | Args2 message "jsstring list option"

type_synonym 'u jsfun = "call_args \<Rightarrow> 'u \<Rightarrow> (exn + jsval) \<times> 'u"

text \<open>
  An argument of the registration functions is a plain value, a function of the user, or
  one of the arrow functions the module itself creates:
  \<^item> \<open>PatternCheck p\<close> is \<^verbatim>\<open>message => pattern.test(message['text'])\<close>;
  \<^item> \<open>PatternRespond p r\<close> is \<^verbatim>\<open>message => respond(message, message['text'].match(pattern))\<close>;
  \<^item> \<open>CommandRespond a sep r\<close> is
    \<^verbatim>\<open>message => respond(message, message['text'].replace(regex, '').trim().split(sep))\<close>
    with \<open>regex\<close> at address \<open>a\<close> and the pattern of the separator copy \<open>sep\<close>;
  \<^item> \<open>RandomRespond supply\<close> is the arrow function of \<open>random\<close>;
  \<^item> \<open>HelpRespond\<close> is the arrow function of \<open>help\<close>.
\<close>

datatype 'u obj =
    Val jsval
  | Fun "'u jsfun"
  | PatternCheck "'u obj"
  | PatternRespond "'u obj" "'u obj"
  | CommandRespond nat regex "'u obj"
  | RandomRespond "'u obj"
  | HelpRespond

fun nullish :: "'u obj \<Rightarrow> bool" where
  "nullish (Val Undefined) = True"
| "nullish (Val Null) = True"
| "nullish _ = False"

fun obj_truthy :: "'u obj \<Rightarrow> bool" where
  "obj_truthy (Val v) = truthy v"
| "obj_truthy _ = True"

fun callable :: "'u obj \<Rightarrow> bool" where
  "callable (Val v) = False"
| "callable _ = True"

record 'u feature =
  desc :: "'u obj"
  check :: "'u obj"
  respond :: "'u obj"

text \<open>
  The function of a plugin is called through the wrapper that \<open>use\<close> installs, with the
  arguments of the call; like the other functions of the user it throws or returns, and
  acts on the state \<open>'u\<close>. What it registers through \<open>this\<close> is not followed.
\<close>

type_synonym 'u plugin_fn = "jsval list \<Rightarrow> 'u \<Rightarrow> (exn + jsval) \<times> 'u"

text \<open>
  The state: the module variables \<open>botId\<close> and \<open>features\<close>, the wrappers that \<open>use\<close> has
  added to \<open>module.exports\<close> (its other own properties are the nine functions of the
  module, \<open>builtin_names\<close>), the RegExp objects, the requests handed to the transport by
  \<open>send\<close> (the query parameters \<open>bot_id\<close> and \<open>text\<close>), the results still to come of
  \<^verbatim>\<open>Math.floor(Math.random() * supply.length)\<close>, and the state of the user's functions.
\<close>

record 'u world =
  botId :: jsval
  features :: "'u feature list"
  plugins :: "(jsstring \<times> 'u plugin_fn) list"
  heap :: "regexp list"
  outbox :: "(jsval \<times> jsstring) list"
  draws :: "nat list"
  user :: 'u


definition init :: "'u \<Rightarrow> 'u world" where
  "init u = \<lparr>botId = Undefined, features = [], plugins = [],
     heap = [], outbox = [], draws = [], user = u\<rparr>"

section \<open>config and send\<close>

definition config :: "jsval \<Rightarrow> 'u world \<Rightarrow> 'u world" where
  "config ident w = w\<lparr>botId := ident\<rparr>"

text \<open>
  \<open>send(message)\<close> as the module calls it, with one argument: \<open>message.trim()\<close> is a
  TypeError unless the message is a string; the request is handed to the transport and
  nothing is done with its answer, as there is no callback.
\<close>

definition send :: "jsval \<Rightarrow> 'u world \<Rightarrow> (exn + jsval) \<times> 'u world" where
  "send v w =
     (case v of
        Str s \<Rightarrow> (Inr Undefined, w\<lparr>outbox := outbox w @ [(botId w, trim s)]\<rparr>)
      | _ \<Rightarrow> (Inl TypeError, w))"

section \<open>Calling a function value\<close>

fun arg_message :: "call_args \<Rightarrow> message option" where
  "arg_message Args0 = None"
| "arg_message (Args1 m) = Some m"
| "arg_message (Args2 m xs) = Some m"

text \<open>
  The string form of a description, as \<open>join\<close> takes it: \<open>undefined\<close> and \<open>null\<close> count as
  the empty string; a function or a RegExp has a string form the embedding does not carry.
\<close>

fun desc_text :: "'u obj \<Rightarrow> jsstring option" where
  "desc_text (Val Undefined) = Some []"
| "desc_text (Val Null) = Some []"
| "desc_text (Val (Bool b)) = Some (if b then str ''true'' else str ''false'')"
| "desc_text (Val (Str s)) = Some s"
| "desc_text (Val (Array xs)) = Some (join [44] xs)"
| "desc_text _ = None"

text \<open>
  \<^verbatim>\<open>features.map(feature => feature.desc).filter(desc => desc !== '').join('\n')\<close>
\<close>

fun empty_string :: "'u obj \<Rightarrow> bool" where
  "empty_string (Val (Str s)) = (s = [])"
| "empty_string _ = False"

definition help_text :: "'u feature list \<Rightarrow> jsstring option" where
  "help_text fs =
     (let ds = filter (\<lambda>d. \<not> empty_string d) (map desc fs)
      in if list_all (\<lambda>d. desc_text d \<noteq> None) ds
         then Some (join [10] (map (\<lambda>d. case desc_text d of Some t \<Rightarrow> t | None \<Rightarrow> []) ds))
         else None)"

text \<open>
  Calling a value with arguments. A plain value is not callable (TypeError). In
  \<open>PatternCheck\<close> and \<open>PatternRespond\<close> the pattern is whatever \<open>pattern\<close> was given once a
  string has been replaced by its RegExp; \<open>test\<close> of anything else is a TypeError, and
  \<open>match\<close> with anything else builds a RegExp from its string form, which is left out.
\<close>

fun call :: "'u obj \<Rightarrow> call_args \<Rightarrow> 'u world \<Rightarrow> (exn + jsval) \<times> 'u world" where
  "call (Val v) args w = (Inl TypeError, w)"
| "call (Fun f) args w = (case f args (user w) of (r, u) \<Rightarrow> (r, w\<lparr>user := u\<rparr>))"
| "call (PatternCheck p) args w =
     (case arg_message args of
        None \<Rightarrow> (Inl TypeError, w)
      | Some m \<Rightarrow>
          (case p of
             Val (RegExp a) \<Rightarrow>
               if a < length (heap w) then
                 (case test (heap w ! a) (msg_text m) of
                    (b, ro) \<Rightarrow> (Inr (Bool b), w\<lparr>heap := (heap w)[a := ro]\<rparr>))
               else (Inl Outside, w)
           | _ \<Rightarrow> (Inl TypeError, w)))"
| "call (PatternRespond p r) args w =
     (case arg_message args of
        None \<Rightarrow> (Inl TypeError, w)
      | Some m \<Rightarrow>
          (case p of
             Val (RegExp a) \<Rightarrow>
               if a < length (heap w) then
                 (case match (heap w ! a) (msg_text m) of
                    (ms, ro) \<Rightarrow> call r (Args2 m ms) (w\<lparr>heap := (heap w)[a := ro]\<rparr>))
               else (Inl Outside, w)
           | _ \<Rightarrow> (Inl Outside, w)))"
| "call (CommandRespond a sep r) args w =
     (case arg_message args of
        None \<Rightarrow> (Inl TypeError, w)
      | Some m \<Rightarrow>
          if a < length (heap w) then
            (case replace_empty (heap w ! a) (msg_text m) of
               (t, ro) \<Rightarrow>
                 call r (Args2 m (Some (split (trim t) sep))) (w\<lparr>heap := (heap w)[a := ro]\<rparr>))
          else (Inl Outside, w))"
| "call (RandomRespond supply) args w =
     (case supply of
        Val (Array xs) \<Rightarrow>
          (case draws w of
             [] \<Rightarrow> (Inl Outside, w)
           | d # ds \<Rightarrow>
               send (if d < length xs then Str (xs ! d) else Undefined) (w\<lparr>draws := ds\<rparr>))
      | _ \<Rightarrow>
          (case call supply Args0 w of
             (Inl e, w') \<Rightarrow> (Inl e, w')
           | (Inr v, w') \<Rightarrow> send v w'))"
| "call HelpRespond args w =
     (case help_text (features w) of
        None \<Rightarrow> (Inl Outside, w)
      | Some t \<Rightarrow> send (Str t) w)"

section \<open>The dispatch of a message\<close>

text \<open>
  \<^verbatim>\<open>
  if (message['sender_type'] === 'user') {
    features
      .filter(feature => feature.check && feature.check(message))
      .forEach(feature => feature.respond(message))
  }
  \<close>
  \<open>filter\<close> calls every check before \<open>forEach\<close> calls the first responder, and neither
  catches an exception. The model also returns what happened: \<open>Checked i b\<close> when the
  check of the feature at index \<open>i\<close> of the registry returned a value of truthiness \<open>b\<close>,
  \<open>Responded i\<close> when its responder was called, \<open>Raised i\<close> when that call threw.
\<close>

datatype event = Checked nat bool | Responded nat | Raised nat

fun filter_features ::
  "message \<Rightarrow> nat \<Rightarrow> 'u feature list \<Rightarrow> 'u world \<Rightarrow>
     (exn + (nat \<times> 'u feature) list) \<times> event list \<times> 'u world" where
  "filter_features m i [] w = (Inr [], [], w)"
| "filter_features m i (f # fs) w =
     (if \<not> obj_truthy (check f) then filter_features m (Suc i) fs w
      else
        (case call (check f) (Args1 m) w of
           (Inl e, w') \<Rightarrow> (Inl e, [], w')
         | (Inr v, w') \<Rightarrow>
             (case filter_features m (Suc i) fs w' of
                (Inl e, evs, w'') \<Rightarrow> (Inl e, Checked i (truthy v) # evs, w'')
              | (Inr kept, evs, w'') \<Rightarrow>
                  (Inr (if truthy v then (i, f) # kept else kept),
                   Checked i (truthy v) # evs, w''))))"

fun for_each_respond ::
  "message \<Rightarrow> (nat \<times> 'u feature) list \<Rightarrow> 'u world \<Rightarrow> exn option \<times> event list \<times> 'u world" where
  "for_each_respond m [] w = (None, [], w)"
| "for_each_respond m ((i, f) # rest) w =
     (if \<not> callable (respond f) then (Some TypeError, [], w)
      else
        (case call (respond f) (Args1 m) w of
           (Inl e, w') \<Rightarrow> (Some e, [Responded i, Raised i], w')
         | (Inr v, w') \<Rightarrow>
             (case for_each_respond m rest w' of
                (r, evs, w'') \<Rightarrow> (r, Responded i # evs, w''))))"

definition dispatch :: "message \<Rightarrow> 'u world \<Rightarrow> exn option \<times> event list \<times> 'u world" where
  "dispatch m w =
     (if sender_type m = str ''user'' then
        (case filter_features m 0 (features w) w of
           (Inl e, evs, w') \<Rightarrow> (Some e, evs, w')
         | (Inr kept, evs, w') \<Rightarrow>
             (case for_each_respond m kept w' of
                (r, evs', w'') \<Rightarrow> (r, evs @ evs', w'')))
      else (None, [], w))"

section \<open>Registration\<close>

text \<open>
  \<^verbatim>\<open>
  module.exports.feature = (desc, check, respond) => {
    if (respond == null) { respond = check; check = desc; desc = '' }
    features.push({ desc: desc, check: check, respond: respond })
    return module.exports
  }
  \<close>
\<close>

definition feature :: "'u obj \<Rightarrow> 'u obj \<Rightarrow> 'u obj \<Rightarrow> 'u world \<Rightarrow> 'u world" where
  "feature d c r w =
     (if nullish r
      then w\<lparr>features := features w @ [\<lparr>desc = Val (Str []), check = d, respond = c\<rparr>]\<rparr>
      else w\<lparr>features := features w @ [\<lparr>desc = d, check = c, respond = r\<rparr>]\<rparr>)"

text \<open>
  \<open>compile\<close> reads a pattern source; \<open>new_RegExp\<close> puts the object of
  \<open>new RegExp(source, 'g')\<close> on the heap, its \<open>lastIndex\<close> 0.
\<close>

definition compile :: "jsstring \<Rightarrow> exn + regex" where
  "compile src = (case regexp_of src of None \<Rightarrow> Inl Outside | Some re \<Rightarrow> Inr re)"

definition new_RegExp :: "regex \<Rightarrow> 'u world \<Rightarrow> nat \<times> 'u world" where
  "new_RegExp r w =
     (length (heap w), w\<lparr>heap := heap w @ [\<lparr>pat = r, global = True, lastIndex = 0\<rparr>]\<rparr>)"

text \<open>
  \<^verbatim>\<open>
  module.exports.pattern = (desc, pattern, respond) => {
    if (respond == null) { respond = pattern; pattern = desc; desc = '' }
    if (typeof pattern === 'string') { pattern = new RegExp(quote(pattern), 'g') }
    return module.exports.feature(desc,
      message => pattern.test(message['text']),
      message => respond(message, message['text'].match(pattern)))
  }
  \<close>
\<close>

definition pattern :: "'u obj \<Rightarrow> 'u obj \<Rightarrow> 'u obj \<Rightarrow> 'u world \<Rightarrow> exn + 'u world" where
  "pattern d p r w =
     (let (d1, p1, r1) = (if nullish r then (Val (Str []), d, p) else (d, p, r)) in
      case p1 of
        Val (Str s) \<Rightarrow>
          (case compile (quote s) of
             Inl e \<Rightarrow> Inl e
           | Inr re \<Rightarrow>
               (case new_RegExp re w of
                  (a, w') \<Rightarrow>
                    Inr (feature d1 (PatternCheck (Val (RegExp a)))
                           (PatternRespond (Val (RegExp a)) r1) w')))
      | _ \<Rightarrow> Inr (feature d1 (PatternCheck p1) (PatternRespond p1 r1) w))"

text \<open>
  The pattern of \<^verbatim>\<open>new RegExp(typeof sep === 'string' ? quote(sep) : sep, 'g')\<close>: a string is
  quoted, a RegExp is copied, \<open>undefined\<close> gives the empty pattern and any other value is
  read in its string form.
\<close>

fun sep_pattern :: "'u obj \<Rightarrow> 'u world \<Rightarrow> exn + regex" where
  "sep_pattern (Val (Str s)) w = compile (quote s)"
| "sep_pattern (Val (RegExp a)) w =
     (if a < length (heap w) then Inr (pat (heap w ! a)) else Inl Outside)"
| "sep_pattern (Val Undefined) w = Inr Empty"
| "sep_pattern (Val Null) w = compile (str ''null'')"
| "sep_pattern (Val (Bool b)) w = compile (if b then str ''true'' else str ''false'')"
| "sep_pattern (Val (Array xs)) w = compile (join [44] xs)"
| "sep_pattern _ w = Inl Outside"

text \<open>\<^verbatim>\<open>` - ${desc.trim()}`\<close>: only a string has \<open>trim\<close>.\<close>

fun dash_desc :: "'u obj \<Rightarrow> exn + jsstring" where
  "dash_desc (Val (Str s)) = Inr (str '' - '' @ trim s)"
| "dash_desc _ = Inl TypeError"

text \<open>The regular expression literal \<^verbatim>\<open>/\s+/\<close>.\<close>

definition whitespace_run :: regex where
  "whitespace_run = Seq Space (Star Space)"

text \<open>
  \<^verbatim>\<open>
  module.exports.command = (name, desc, sep, respond) => {
    if (respond == null) {
      if (sep == null) { respond = desc; desc = '' }
      else { respond = sep; sep = /\s+/; desc = ` - ${desc.trim()}` }
    } else { desc = ` - ${desc.trim()}` }
    sep = new RegExp(typeof sep === 'string' ? quote(sep) : sep, 'g')
    const regex = new RegExp(`^/${quote(name)}(\\s|$)`, 'g')
    return module.exports.pattern(`/${name}${desc}`, regex,
      message => respond(message, message['text'].replace(regex, '').trim().split(sep)))
  }
  \<close>
  \<open>collapse\<close> is the first statement: the description text, the pattern of the separator
  and the responder, or the TypeError of \<open>desc.trim()\<close>.
\<close>

definition collapse ::
  "'u obj \<Rightarrow> 'u obj \<Rightarrow> 'u obj \<Rightarrow> 'u world \<Rightarrow> exn + (jsstring \<times> (exn + regex) \<times> 'u obj)" where
  "collapse d sep r w =
     (if nullish r then
        (if nullish sep then Inr ([], sep_pattern sep w, d)
         else (case dash_desc d of
                 Inl e \<Rightarrow> Inl e
               | Inr t \<Rightarrow> Inr (t, Inr whitespace_run, sep)))
      else (case dash_desc d of
              Inl e \<Rightarrow> Inl e
            | Inr t \<Rightarrow> Inr (t, sep_pattern sep w, r)))"

definition command_source :: "jsstring \<Rightarrow> jsstring" where
  "command_source name = [94, 47] @ quote name @ [40, 92, 115, 124, 36, 41]"

definition command ::
  "jsstring \<Rightarrow> 'u obj \<Rightarrow> 'u obj \<Rightarrow> 'u obj \<Rightarrow> 'u world \<Rightarrow> exn + 'u world" where
  "command name d sep r w =
     (case collapse d sep r w of
        Inl e \<Rightarrow> Inl e
      | Inr (t, Inl e, r1) \<Rightarrow> Inl e
      | Inr (t, Inr sp, r1) \<Rightarrow>
          (case compile (command_source name) of
             Inl e \<Rightarrow> Inl e
           | Inr re \<Rightarrow>
               (case new_RegExp re w of
                  (a, w') \<Rightarrow>
                    pattern (Val (Str ([47] @ name @ t))) (Val (RegExp a))
                      (CommandRespond a sp r1) w')))"

text \<open>
  \<^verbatim>\<open>
  module.exports.random = (name, desc, supply) => {
    if (supply == null) { supply = desc; desc = undefined }
    return module.exports.command(name, desc,
      () => module.exports.send(Array.isArray(supply)
        ? supply[Math.floor(Math.random() * supply.length)] : supply()))
  }
  \<close>
\<close>

definition random :: "jsstring \<Rightarrow> 'u obj \<Rightarrow> 'u obj \<Rightarrow> 'u world \<Rightarrow> exn + 'u world" where
  "random name d supply w =
     (if nullish supply then command name (Val Undefined) (RandomRespond d) (Val Undefined) w
      else command name d (RandomRespond supply) (Val Undefined) w)"


text \<open>
  \<^verbatim>\<open>features.sort((a, b) => a.desc < b.desc ? -1 : a.desc > b.desc ? 1 : 0)\<close>

  On strings \<open><\<close> is the lexicographic order of the code units, and the sort is stable.
  When a description is not a string the two values are compared as primitives or as
  numbers, which need not be a consistent ordering of the features; the sort returns all
  the same, in the order the algorithm of the engine produces, for which \<open>engine\<close> stands.
  (\<open>server.listen(args)\<close>, which follows, opens the port.)
\<close>

fun desc_key :: "'u feature \<Rightarrow> jsstring" where
  "desc_key f = (case desc f of Val (Str s) \<Rightarrow> s | _ \<Rightarrow> [])"

fun is_Str :: "'u obj \<Rightarrow> bool" where
  "is_Str (Val (Str s)) = True"
| "is_Str _ = False"

definition listen :: "('u feature list \<Rightarrow> 'u feature list) \<Rightarrow> 'u world \<Rightarrow> 'u world" where
  "listen engine w =
     w\<lparr>features :=
         (if list_all (\<lambda>f. is_Str (desc f)) (features w)
          then sort_key desc_key (features w)
          else engine (features w))\<rparr>"

section \<open>Plugins\<close>







section \<open>Auxiliary notions for the statements\<close>

text \<open>
  \<open>literal r s\<close> is the pattern \<open>r\<close> followed by the characters of \<open>s\<close>, each matched as
  itself, and \<open>command_regex name\<close> the pattern \<^verbatim>\<open>^/name(\s|$)\<close> with \<open>name\<close> matched
  literally: lemmas \<open>regexp_of_quote\<close> and \<open>regexp_of_command_source\<close> show that these are
  what the reader makes of the sources the program assembles.
\<close>

definition literal :: "regex \<Rightarrow> jsstring \<Rightarrow> regex" where
  "literal r s = foldl (\<lambda>a c. Seq a (Lit c)) r s"

definition command_regex :: "jsstring \<Rightarrow> regex" where
  "command_regex name =
     Seq (literal (Seq (Seq Empty Bol) (Lit 47)) name) (Alt (Seq Empty Space) (Seq Empty Eol))"

text \<open>Matching the string \<open>s\<close> at a position.\<close>

definition eat :: "jsstring \<Rightarrow> pos \<Rightarrow> pos list" where
  "eat s q = (if prefix s (snd q) then [(fst q \<and> s = [], drop (length s) (snd q))] else [])"

text \<open>
  The text begins with \<open>/name\<close> followed by a whitespace character or by nothing, and
  what remains of it after \<open>/name\<close> and that one character.
\<close>

definition starts_command :: "jsstring \<Rightarrow> jsstring \<Rightarrow> bool" where
  "starts_command name t =
     (prefix (47 # name) t \<and>
      (case drop (Suc (length name)) t of [] \<Rightarrow> True | c # cs \<Rightarrow> is_space c))"

definition after_command :: "jsstring \<Rightarrow> jsstring \<Rightarrow> jsstring" where
  "after_command name t = (case drop (Suc (length name)) t of [] \<Rightarrow> [] | c # cs \<Rightarrow> cs)"

text \<open>
  The state after a successful \<open>command\<close>: one RegExp object and one feature more. \<open>t\<close>
  is the description text after the name, \<open>sp\<close> the pattern of the separator and \<open>r\<close> the
  responder.
\<close>

definition registered :: "jsstring \<Rightarrow> jsstring \<Rightarrow> regex \<Rightarrow> 'u obj \<Rightarrow> 'u world \<Rightarrow> 'u world" where
  "registered name t sp r w =
     w\<lparr>heap := heap w @ [\<lparr>pat = command_regex name, global = True, lastIndex = 0\<rparr>],
       features := features w @
         [\<lparr>desc = Val (Str (47 # name @ t)),
           check = PatternCheck (Val (RegExp (length (heap w)))),
           respond = PatternRespond (Val (RegExp (length (heap w))))
                       (CommandRespond (length (heap w)) sp r)\<rparr>]\<rparr>"

text \<open>The features whose responder was called, in the order of the calls.\<close>

fun responded :: "event list \<Rightarrow> nat list" where
  "responded [] = []"
| "responded (Responded i # evs) = i # responded evs"
| "responded (ev # evs) = responded evs"

text \<open>The features whose check was called and returned, in the order of the calls.\<close>

fun checked :: "event list \<Rightarrow> nat list" where
  "checked [] = []"
| "checked (Checked i b # evs) = i # checked evs"
| "checked (ev # evs) = checked evs"

text \<open>
  A responder that appends the array it is given to the user state, a message sent by a
  user, and what such a responder has recorded once a message has been dispatched to the
  outcome of a registration on the initial state.
\<close>

definition recorder :: "(jsstring list option) list jsfun" where
  "recorder args u =
     (case args of
        Args2 m xs \<Rightarrow> (Inr Undefined, u @ [xs])
      | _ \<Rightarrow> (Inr Undefined, u @ [None]))"

definition user_message :: "jsstring \<Rightarrow> message" where
  "user_message t = \<lparr>msg_text = t, sender_type = str ''user''\<rparr>"

definition received ::
  "exn + (jsstring list option) list world \<Rightarrow> jsstring \<Rightarrow> (jsstring list option) list" where
  "received reg t =
     (case reg of
        Inl e \<Rightarrow> []
      | Inr w \<Rightarrow> user (snd (snd (dispatch (user_message t) w))))"

text \<open>
  User functions for the examples: a check that returns \<open>b\<close>, a function that throws, and
  three registries built with \<open>feature\<close>.
\<close>

definition answers :: "bool \<Rightarrow> 'u jsfun" where
  "answers b args u = (Inr (Bool b), u)"

definition throws :: "nat \<Rightarrow> 'u jsfun" where
  "throws k args u = (Inl (Thrown k), u)"

definition three_features :: "(jsstring list option) list world" where
  "three_features =
     feature (Val (Str (str ''c''))) (Fun (answers True)) (Fun recorder)
       (feature (Val (Str (str ''b''))) (Fun (answers False)) (Fun recorder)
          (feature (Val (Str (str ''a''))) (Fun (answers True)) (Fun recorder) (init [])))"

definition check_throws :: "(jsstring list option) list world" where
  "check_throws =
     feature (Val (Str (str ''b''))) (Fun (throws 0)) (Fun recorder)
       (feature (Val (Str (str ''a''))) (Fun (answers True)) (Fun recorder) (init []))"

definition respond_throws :: "(jsstring list option) list world" where
  "respond_throws =
     feature (Val (Str (str ''b''))) (Fun (answers True)) (Fun recorder)
       (feature (Val (Str (str ''a''))) (Fun (answers True)) (Fun (throws 1)) (init []))"

text \<open>
  A registry whose first feature is registered by \<open>feature(undefined, respond)\<close>: the
  constructor takes the two arguments for \<open>check\<close> and \<open>respond\<close>, so the check is
  \<open>undefined\<close>.
\<close>

definition null_check :: "(jsstring list option) list world" where
  "null_check =
     feature (Val (Str (str ''b''))) (Fun (answers True)) (Fun recorder)
       (feature (Val Undefined) (Fun recorder) (Val Undefined) (init []))"



text \<open>
  \<open>w2\<close> is a state in which the RegExp objects of \<open>w1\<close> still exist with their pattern
  and flags; only \<open>lastIndex\<close> may differ. No operation of the module removes a RegExp
  object or changes its pattern.
\<close>

definition later_state :: "'u world \<Rightarrow> 'u world \<Rightarrow> bool" where
  "later_state w1 w2 =
     (length (heap w1) \<le> length (heap w2) \<and>
      list_all (\<lambda>a. pat (heap w2 ! a) = pat (heap w1 ! a) \<and> global (heap w2 ! a) = global (heap w1 ! a))
        [0..<length (heap w1)])"

text \<open>
  A registry with a feature whose responder throws and the literal pattern \<open>a.b\<close>; the
  events of two successive dispatches of one text, and the results of two successive calls
  of the check of the feature registered last.
\<close>

definition stale_pattern :: "exn + (jsstring list option) list world" where
  "stale_pattern =
     pattern (Val (Str (str ''a.b''))) (Fun recorder) (Val Undefined)
       (feature (Val (Str (str ''x''))) (Fun (answers True)) (Fun (throws 1)) (init []))"

definition twice :: "exn + 'u world \<Rightarrow> jsstring \<Rightarrow> event list \<times> event list" where
  "twice reg t =
     (case reg of
        Inl e \<Rightarrow> ([], [])
      | Inr w \<Rightarrow>
          (case dispatch (user_message t) w of
             (r, evs, w1) \<Rightarrow> (evs, fst (snd (dispatch (user_message t) w1)))))"

definition check_twice :: "exn + 'u world \<Rightarrow> jsstring \<Rightarrow> (exn + jsval) \<times> (exn + jsval)" where
  "check_twice reg t =
     (case reg of
        Inl e \<Rightarrow> (Inl e, Inl e)
      | Inr w \<Rightarrow>
          (case call (check (last (features w))) (Args1 (user_message t)) w of
             (r, w1) \<Rightarrow> (r, fst (call (check (last (features w))) (Args1 (user_message t)) w1))))"









text \<open>
  A feature with an empty description whose responder throws, registered before the
  command \<open>ban\<close>, and the sort of \<open>listen\<close> after both.
\<close>

definition stale_command :: "exn + (jsstring list option) list world" where
  "stale_command =
     (case command (str ''ban'') (Val (Str (str ''bans a user''))) (Fun recorder) (Val Undefined)
             (feature (Fun (answers True)) (Fun (throws 1)) (Val Undefined) (init [])) of
        Inl e \<Rightarrow> Inl e
      | Inr w \<Rightarrow> Inr (listen id w))"

text \<open>
  For the invariant of the dispatch. A RegExp object is busy when it has the \<open>g\<close> flag
  and its \<open>lastIndex\<close> is not 0. \<open>no_test\<close> holds of a function that never calls \<open>test\<close>;
  a feature is paired when it is one that \<open>pattern\<close> builds, the check and the responder
  on the same pattern, or has no arrow function of \<open>pattern\<close> as its check.
\<close>

definition busy :: "'u world \<Rightarrow> nat set" where
  "busy w = {a. a < length (heap w) \<and> global (heap w ! a) \<and> lastIndex (heap w ! a) \<noteq> 0}"

fun no_test :: "'u obj \<Rightarrow> bool" where
  "no_test (PatternCheck p) = False"
| "no_test (PatternRespond p r) = no_test r"
| "no_test (CommandRespond a sep r) = no_test r"
| "no_test (RandomRespond supply) = no_test supply"
| "no_test _ = True"

definition paired :: "'u feature \<Rightarrow> bool" where
  "paired f =
     (case check f of
        PatternCheck p \<Rightarrow> (case respond f of PatternRespond q r \<Rightarrow> q = p \<and> no_test r | _ \<Rightarrow> False)
      | c \<Rightarrow> no_test c \<and> no_test (respond f))"

definition patterns_of :: "(nat \<times> 'u feature) list \<Rightarrow> nat set" where
  "patterns_of kept = {a. \<exists>j f. (j, f) \<in> set kept \<and> check f = PatternCheck (Val (RegExp a))}"

section \<open>The patterns the program builds\<close>

lemma escape_set_iff:
  "c \<in> set escape_set \<longleftrightarrow>
     c = 46 \<or> c = 63 \<or> c = 42 \<or> c = 43 \<or> c = 94 \<or> c = 36 \<or> c = 91 \<or> c = 93 \<or> c = 92 \<or>
     c = 40 \<or> c = 41 \<or> c = 123 \<or> c = 125 \<or> c = 124 \<or> c = 45"
  by (auto simp: escape_set_def)

lemma lex_plain: "c \<notin> set escape_set \<Longrightarrow> lex (c # xs) = map_option ((#) (TLit c)) (lex xs)"
  by (cases xs) (auto simp: escape_set_iff)

lemma lex_escaped:
  "c \<in> set escape_set \<Longrightarrow> lex (92 # c # xs) = map_option ((#) (TLit c)) (lex xs)"
  by (auto simp: escape_set_iff)

lemma lex_quote: "lex (quote s @ rest) = map_option ((@) (map TLit s)) (lex rest)"
proof (induction s)
  case Nil
  show ?case by (simp add: quote_def option.map_ident)
next
  case (Cons c s)
  have q: "quote (c # s) = (if c \<in> set escape_set then [92, c] else [c]) @ quote s"
    by (simp add: quote_def)
  show ?case
  proof (cases "c \<in> set escape_set")
    case True
    then show ?thesis
      using Cons lex_escaped [of c "quote s @ rest"]
      by (simp add: q option.map_comp comp_def)
  next
    case False
    then show ?thesis
      using Cons lex_plain [of c "quote s @ rest"]
      by (simp add: q option.map_comp comp_def)
  qed
qed

lemma parse_literal:
  "parse (map TLit s @ ts) f stack = parse ts (fst f, literal (snd f) s) stack"
  by (induction s arbitrary: f) (simp_all add: literal_def)

lemma regexp_of_quote: "regexp_of (quote s) = Some (literal Empty s)"
  using lex_quote [of s "[]"] parse_literal [of s "[]" "(None, Empty)" "[]"]
  by (simp add: regexp_of_def close_alt_def)

lemma regexp_of_command_source: "regexp_of (command_source name) = Some (command_regex name)"
proof -
  have "lex (command_source name) =
      Some ([TBol, TLit 47] @ map TLit name @ [TOpen, TSpace, TBar, TEol, TClose])"
    using lex_quote [of name "[40, 92, 115, 124, 36, 41]"]
      lex_plain [of 47 "quote name @ [40, 92, 115, 124, 36, 41]"]
    by (simp add: command_source_def escape_set_iff)
  moreover have "parse ([TBol, TLit 47] @ map TLit name @ [TOpen, TSpace, TBar, TEol, TClose])
      (None, Empty) [] = Some (command_regex name)"
    using parse_literal [of name "[TOpen, TSpace, TBar, TEol, TClose]"
        "(None, Seq (Seq Empty Bol) (Lit 47))" "[]"]
    by (simp add: command_regex_def close_alt_def)
  ultimately show ?thesis
    by (simp add: regexp_of_def)
qed

lemma eat_Nil: "eat [] q = [q]"
  by (simp add: eat_def)

lemma eat_Cons: "eat (c # s) q = concat (map (eat s) (ends (Lit c) q))"
  by (cases q) (auto simp: eat_def split: list.splits)

lemma concat_map_concat:
  "concat (map f (concat (map g xs))) = concat (map (\<lambda>x. concat (map f (g x))) xs)"
  by (induction xs) auto

lemma ends_literal: "ends (literal r s) p = concat (map (eat s) (ends r p))"
proof (induction s arbitrary: r)
  case Nil
  show ?case by (simp add: literal_def eat_Nil [abs_def])
next
  case (Cons c s)
  have "ends (literal r (c # s)) p = ends (literal (Seq r (Lit c)) s) p"
    by (simp add: literal_def)
  also have "\<dots> = concat (map (eat s) (concat (map (ends (Lit c)) (ends r p))))"
    by (simp add: Cons)
  also have "\<dots> = concat (map (eat (c # s)) (ends r p))"
    by (simp only: concat_map_concat eat_Cons [symmetric])
  finally show ?case .
qed


lemma search_literal: "search (literal Empty s) at0 t \<noteq> None \<longleftrightarrow> sublist s t"
proof (induction t arbitrary: at0)
  case Nil
  show ?case
    by (auto simp: ends_literal eat_def split: list.splits)
next
  case (Cons c cs)
  show ?case
    using Cons [of False]
    by (auto simp: ends_literal eat_def sublist_Cons_right split: list.splits)
qed

lemma ends_command_regex:
  "ends (command_regex name) (at0, t) =
     (if at0 \<and> starts_command name t then [(False, after_command name t)] else [])"
  by (auto simp: command_regex_def ends_literal eat_def starts_command_def after_command_def
      split: list.splits)

lemma search_command_regex_False: "search (command_regex name) False t = None"
  by (induction t) (simp_all add: ends_command_regex)

lemma search_command_regex:
  "search (command_regex name) True t =
     (if starts_command name t then Some (t, after_command name t) else None)"
  by (cases t) (simp_all add: ends_command_regex search_command_regex_False starts_command_def)


lemma compile_quote: "compile (quote s) = Inr (literal Empty s)"
  by (simp add: compile_def regexp_of_quote)

lemma compile_command_source: "compile (command_source name) = Inr (command_regex name)"
  by (simp add: compile_def regexp_of_command_source)

lemma length_after_command:
  "starts_command name t \<Longrightarrow> length (after_command name t) < length t"
  by (auto simp: starts_command_def after_command_def prefix_def split: list.splits)

lemma remove_matches_command_regex:
  "remove_matches (command_regex name) True t =
     (if starts_command name t then after_command name t else t)"
proof (cases "starts_command name t")
  case True
  have "remove_matches (command_regex name) False (after_command name t) = after_command name t"
    by (subst remove_matches.simps) (simp add: search_command_regex_False)
  with True length_after_command [OF True] show ?thesis
    by (subst remove_matches.simps) (simp add: search_command_regex)
next
  case False
  then show ?thesis
    by (subst remove_matches.simps) (simp add: search_command_regex)
qed

lemma all_matches_command_regex:
  "all_matches (command_regex name) True t =
     (if starts_command name t then [take (length t - length (after_command name t)) t] else [])"
proof (cases "starts_command name t")
  case True
  have "all_matches (command_regex name) False (after_command name t) = []"
    by (subst all_matches.simps) (simp add: search_command_regex_False)
  with True length_after_command [OF True] show ?thesis
    by (subst all_matches.simps) (simp add: search_command_regex)
next
  case False
  then show ?thesis
    by (subst all_matches.simps) (simp add: search_command_regex)
qed

lemma test_command_regex:
  "test \<lparr>pat = command_regex name, global = True, lastIndex = li\<rparr> t =
     (if li = 0 \<and> starts_command name t
      then (True, \<lparr>pat = command_regex name, global = True,
                   lastIndex = length t - length (after_command name t)\<rparr>)
      else (False, \<lparr>pat = command_regex name, global = True, lastIndex = 0\<rparr>))"
  by (cases "li = 0") (simp_all add: test_def search_command_regex search_command_regex_False)

lemma match_command_regex:
  "match \<lparr>pat = command_regex name, global = True, lastIndex = li\<rparr> t =
     (if starts_command name t then Some [take (length t - length (after_command name t)) t]
      else None,
      \<lparr>pat = command_regex name, global = True, lastIndex = 0\<rparr>)"
  by (simp add: match_def all_matches_command_regex)

lemma replace_empty_command_regex:
  "replace_empty \<lparr>pat = command_regex name, global = True, lastIndex = li\<rparr> t =
     (if starts_command name t then after_command name t else t,
      \<lparr>pat = command_regex name, global = True, lastIndex = 0\<rparr>)"
  by (simp add: replace_empty_def remove_matches_command_regex)

lemma command_eq:
  "command name d sep r w =
     (case collapse d sep r w of
        Inl e \<Rightarrow> Inl e
      | Inr (t, Inl e, r1) \<Rightarrow> Inl e
      | Inr (t, Inr sp, r1) \<Rightarrow> Inr (registered name t sp r1 w))"
  by (simp add: command_def compile_command_source new_RegExp_def pattern_def feature_def
      registered_def split: sum.splits prod.splits)

text \<open>The facts that evaluate a dispatch to a registered command.\<close>

lemmas eval_defs = received_def command_eq collapse_def registered_def init_def dispatch_def user_message_def
      test_command_regex match_command_regex replace_empty_command_regex starts_command_def after_command_def
      split_def trim_def whitespace_run_def recorder_def str_def is_space_def ends_Star

section \<open>The two passes of a dispatch\<close>

lemma filter_features_append:
  "filter_features m i (fs1 @ fs2) w =
     (case filter_features m i fs1 w of
        (Inl e, evs1, w1) \<Rightarrow> (Inl e, evs1, w1)
      | (Inr k1, evs1, w1) \<Rightarrow>
          (case filter_features m (i + length fs1) fs2 w1 of
             (Inl e, evs2, w2) \<Rightarrow> (Inl e, evs1 @ evs2, w2)
           | (Inr k2, evs2, w2) \<Rightarrow> (Inr (k1 @ k2), evs1 @ evs2, w2)))"
proof (induction fs1 arbitrary: i w)
  case Nil
  show ?case by (simp split: prod.splits sum.splits)
next
  case (Cons f fs1)
  show ?case
    by (simp add: Cons split: prod.splits sum.splits)
qed

lemma filter_features_events:
  "filter_features m i fs w = (r, evs, w') \<Longrightarrow> ev \<in> set evs \<Longrightarrow>
     \<exists>j b. ev = Checked j b \<and> i \<le> j \<and> j < i + length fs"
proof (induction fs arbitrary: i w r evs w')
  case Nil
  then show ?case by simp
next
  case (Cons f fs)
  show ?case
  proof (cases "obj_truthy (check f)")
    case False
    with Cons.prems have "filter_features m (Suc i) fs w = (r, evs, w')"
      by simp
    from Cons.IH [OF this Cons.prems(2)] show ?thesis
      by auto
  next
    case True
    show ?thesis
    proof (cases "call (check f) (Args1 m) w")
      case (Pair res w1)
      show ?thesis
      proof (cases res)
        case (Inl e)
        with Cons.prems True Pair show ?thesis by simp
      next
        case (Inr v)
        obtain r2 evs2 w2 where t: "filter_features m (Suc i) fs w1 = (r2, evs2, w2)"
          by (cases "filter_features m (Suc i) fs w1") auto
        with Cons.prems True Pair Inr have evs: "evs = Checked i (truthy v) # evs2"
          by (auto split: sum.splits)
        show ?thesis
        proof (cases "ev = Checked i (truthy v)")
          case True
          then show ?thesis by auto
        next
          case False
          with evs Cons.prems(2) have "ev \<in> set evs2" by simp
          from Cons.IH [OF t this] show ?thesis by auto
        qed
      qed
    qed
  qed
qed


lemma filter_features_no_earlier:
  "filter_features m i fs w = (r, evs, w') \<Longrightarrow> j < i \<Longrightarrow> Checked j b \<notin> set evs"
  by (auto dest: filter_features_events)

lemma filter_upt_Cons:
  "filter P [i..<i + Suc n] = (if P i then [i] else []) @ filter P [Suc i..<Suc i + n]"
  by (subst upt_rec) simp

lemma filter_features_kept:
  "filter_features m i fs w = (Inr kept, evs, w') \<Longrightarrow>
     map fst kept = [j \<leftarrow> [i..<i + length fs]. Checked j True \<in> set evs]"
proof (induction fs arbitrary: i w kept evs w')
  case Nil
  then show ?case by simp
next
  case (Cons f fs)
  show ?case
  proof (cases "obj_truthy (check f)")
    case False
    with Cons.prems have t: "filter_features m (Suc i) fs w = (Inr kept, evs, w')"
      by simp
    have "Checked i True \<notin> set evs"
      using filter_features_no_earlier [OF t, of i True] by simp
    with Cons.IH [OF t] show ?thesis
      by (simp only: length_Cons filter_upt_Cons) simp
  next
    case True
    obtain res w1 where c: "call (check f) (Args1 m) w = (res, w1)"
      by (cases "call (check f) (Args1 m) w") auto
    with Cons.prems True obtain v where v: "res = Inr v"
      by (cases res) auto
    obtain r2 evs2 w2 where t: "filter_features m (Suc i) fs w1 = (r2, evs2, w2)"
      by (cases "filter_features m (Suc i) fs w1") auto
    with Cons.prems True c v obtain kept2 where k: "r2 = Inr kept2"
      by (cases r2) auto
    from Cons.prems True c v t k
    have evs: "evs = Checked i (truthy v) # evs2"
      and kept: "kept = (if truthy v then (i, f) # kept2 else kept2)"
      by auto
    have no: "Checked i True \<notin> set evs2"
      using filter_features_no_earlier [OF t, of i True] by simp
    have "[j \<leftarrow> [Suc i..<Suc i + length fs]. Checked j True \<in> set evs]
        = [j \<leftarrow> [Suc i..<Suc i + length fs]. Checked j True \<in> set evs2]"
      by (rule filter_cong) (auto simp: evs)
    with Cons.IH [OF t [unfolded k]] no show ?thesis
      by (simp only: length_Cons filter_upt_Cons) (simp add: evs kept)
  qed
qed

lemma filter_features_nth:
  "filter_features m i fs w = (Inr kept, evs, w') \<Longrightarrow> (j, f) \<in> set kept \<Longrightarrow>
     i \<le> j \<and> j < i + length fs \<and> f = fs ! (j - i)"
proof (induction fs arbitrary: i w kept evs w')
  case Nil
  then show ?case by simp
next
  case (Cons g fs)
  show ?case
  proof (cases "obj_truthy (check g)")
    case False
    with Cons.prems have t: "filter_features m (Suc i) fs w = (Inr kept, evs, w')"
      by simp
    from Cons.IH [OF t Cons.prems(2)] show ?thesis
      by (auto simp: Suc_diff_le)
  next
    case True
    obtain res w1 where c: "call (check g) (Args1 m) w = (res, w1)"
      by (cases "call (check g) (Args1 m) w") auto
    with Cons.prems True obtain v where v: "res = Inr v"
      by (cases res) auto
    obtain r2 evs2 w2 where t: "filter_features m (Suc i) fs w1 = (r2, evs2, w2)"
      by (cases "filter_features m (Suc i) fs w1") auto
    with Cons.prems True c v obtain kept2 where k: "r2 = Inr kept2"
      by (cases r2) auto
    from Cons.prems True c v t k
    have kept: "kept = (if truthy v then (i, g) # kept2 else kept2)"
      by auto
    show ?thesis
    proof (cases "(j, f) \<in> set kept2")
      case True
      from Cons.IH [OF t [unfolded k] True] show ?thesis
        by (auto simp: Suc_diff_le)
    next
      case False
      with kept Cons.prems(2) have "j = i" "f = g"
        by (auto split: if_splits)
      then show ?thesis by simp
    qed
  qed
qed

lemma filter_features_checked:
  "filter_features m i fs w = (r, evs, w') \<Longrightarrow> distinct (checked evs)"
proof (induction fs arbitrary: i w r evs w')
  case Nil
  then show ?case by simp
next
  case (Cons f fs)
  show ?case
  proof (cases "obj_truthy (check f)")
    case False
    with Cons.prems Cons.IH show ?thesis by simp
  next
    case True
    obtain res w1 where c: "call (check f) (Args1 m) w = (res, w1)"
      by (cases "call (check f) (Args1 m) w") auto
    show ?thesis
    proof (cases res)
      case (Inl e)
      with Cons.prems True c show ?thesis by auto
    next
      case (Inr v)
      obtain r2 evs2 w2 where t: "filter_features m (Suc i) fs w1 = (r2, evs2, w2)"
        by (cases "filter_features m (Suc i) fs w1") auto
      with Cons.prems True c Inr have evs: "evs = Checked i (truthy v) # evs2"
        by (auto split: sum.splits)
      have "i \<notin> set (checked evs2)"
      proof
        assume "i \<in> set (checked evs2)"
        then obtain b where "Checked i b \<in> set evs2"
          by (induction evs2 rule: checked.induct) auto
        with filter_features_no_earlier [OF t, of i b] show False by simp
      qed
      with Cons.IH [OF t] evs show ?thesis by simp
    qed
  qed
qed

lemma for_each_respond_events:
  "for_each_respond m kept w = (None, evs, w') \<Longrightarrow> evs = map (\<lambda>p. Responded (fst p)) kept"
proof (induction kept arbitrary: w evs w')
  case Nil
  then show ?case by simp
next
  case (Cons p kept)
  obtain i f where p: "p = (i, f)" by (cases p)
  from Cons.prems p show ?case
    by (auto split: if_splits prod.splits sum.splits dest: Cons.IH)
qed

lemma responded_checked_only:
  "(\<And>ev. ev \<in> set evs \<Longrightarrow> \<exists>j b. ev = Checked j b) \<Longrightarrow> responded evs = []"
  by (induction evs rule: responded.induct) auto

lemma responded_append: "responded (xs @ ys) = responded xs @ responded ys"
  by (induction xs rule: responded.induct) auto

lemma responded_map: "responded (map (\<lambda>p. Responded (fst p)) kept) = map fst kept"
  by (induction kept) auto


lemma for_each_respond_cases:
  "for_each_respond m kept w = (r, evs, w') \<Longrightarrow>
     (r = None \<and> evs = map (\<lambda>p. Responded (fst p)) kept)
     \<or> (\<exists>pre i f post. kept = pre @ (i, f) # post \<and> r \<noteq> None \<and>
           (evs = map (\<lambda>p. Responded (fst p)) pre @ [Responded i, Raised i]
            \<or> evs = map (\<lambda>p. Responded (fst p)) pre \<and> \<not> callable (respond f)))"
proof (induction kept arbitrary: w r evs w')
  case Nil
  then show ?case by simp
next
  case (Cons p kept)
  obtain i f where p: "p = (i, f)" by (cases p)
  show ?case
  proof (cases "callable (respond f)")
    case False
    with Cons.prems p have "r \<noteq> None" "evs = []"
      by auto
    with False p show ?thesis
      by (intro disjI2 exI [of _ "[]"] exI [of _ i] exI [of _ f] exI [of _ kept]) simp
  next
    case True
    obtain res w1 where c: "call (respond f) (Args1 m) w = (res, w1)"
      by (cases "call (respond f) (Args1 m) w") auto
    show ?thesis
    proof (cases res)
      case (Inl e)
      with Cons.prems p True c have "r \<noteq> None" "evs = [Responded i, Raised i]"
        by auto
      with p show ?thesis
        by (intro disjI2 exI [of _ "[]"] exI [of _ i] exI [of _ f] exI [of _ kept]) simp
    next
      case (Inr v)
      obtain r2 evs2 w2 where t: "for_each_respond m kept w1 = (r2, evs2, w2)"
        by (cases "for_each_respond m kept w1") auto
      with Cons.prems p True c Inr have e: "r = r2" "evs = Responded i # evs2"
        by auto
      from Cons.IH [OF t] show ?thesis
      proof
        assume "r2 = None \<and> evs2 = map (\<lambda>p. Responded (fst p)) kept"
        with e p show ?thesis by simp
      next
        assume "\<exists>pre i f post. kept = pre @ (i, f) # post \<and> r2 \<noteq> None \<and>
           (evs2 = map (\<lambda>p. Responded (fst p)) pre @ [Responded i, Raised i]
            \<or> evs2 = map (\<lambda>p. Responded (fst p)) pre \<and> \<not> callable (respond f))"
        then obtain pre j g post where k: "kept = pre @ (j, g) # post" "r2 \<noteq> None"
          "evs2 = map (\<lambda>p. Responded (fst p)) pre @ [Responded j, Raised j]
            \<or> evs2 = map (\<lambda>p. Responded (fst p)) pre \<and> \<not> callable (respond g)"
          by blast
        with e p show ?thesis
          by (intro disjI2 exI [of _ "(i, f) # pre"] exI [of _ j] exI [of _ g] exI [of _ post])
            auto
      qed
    qed
  qed
qed

lemma checked_map_Responded [simp]: "Checked j b \<notin> set (map (\<lambda>p. Responded (fst p)) kept)"
  by auto

lemma for_each_respond_no_Checked:
  "for_each_respond m kept w = (r, evs, w') \<Longrightarrow> Checked j b \<notin> set evs"
  by (drule for_each_respond_cases) auto

lemma for_each_respond_responded:
  "for_each_respond m kept w = (r, evs, w') \<Longrightarrow> Responded j \<in> set evs \<Longrightarrow> j \<in> fst ` set kept"
  by (drule for_each_respond_cases) force

lemma for_each_respond_raised:
  "for_each_respond m kept w = (r, evs, w') \<Longrightarrow> Raised j \<in> set evs \<Longrightarrow> j \<in> fst ` set kept"
  by (drule for_each_respond_cases) force

lemma for_each_respond_checked:
  "for_each_respond m kept w = (r, evs, w') \<Longrightarrow> checked evs = []"
proof -
  have c: "checked (map (\<lambda>p. Responded (fst p)) xs) = []" for xs :: "(nat \<times> 'b feature) list"
    by (induction xs) auto
  have a: "checked (xs @ ys) = checked xs @ checked ys" for xs ys
    by (induction xs rule: checked.induct) auto
  assume "for_each_respond m kept w = (r, evs, w')"
  from for_each_respond_cases [OF this] show ?thesis
    by (auto simp: a c)
qed

lemma checked_append: "checked (xs @ ys) = checked xs @ checked ys"
  by (induction xs rule: checked.induct) auto

text \<open>What a dispatch to a user message consists of.\<close>

lemma dispatch_user:
  assumes "sender_type m = str ''user''" and "dispatch m w = (r, evs, w')"
  obtains (check_raised) e where "filter_features m 0 (features w) w = (Inl e, evs, w')"
      and "r = Some e"
    | (filtered) kept evs0 w0 evs1 where
      "filter_features m 0 (features w) w = (Inr kept, evs0, w0)"
      and "for_each_respond m kept w0 = (r, evs1, w')" and "evs = evs0 @ evs1"
proof (cases "filter_features m 0 (features w) w")
  case (fields res evs0 w0)
  show ?thesis
  proof (cases res)
    case (Inl e)
    with assms fields show ?thesis
      by (intro check_raised [of e]) (simp_all add: dispatch_def)
  next
    case (Inr kept)
    obtain r1 evs1 w1 where t: "for_each_respond m kept w0 = (r1, evs1, w1)"
      by (cases "for_each_respond m kept w0") auto
    with assms fields Inr show ?thesis
      by (intro filtered [of kept evs0 w0 evs1]) (simp_all add: dispatch_def)
  qed
qed

lemma split_unique:
  "i \<notin> set xs \<Longrightarrow> i \<notin> set xs' \<Longrightarrow> xs @ i # ys = xs' @ i # ys' \<Longrightarrow> xs = xs'"
proof (induction xs arbitrary: xs')
  case Nil
  then show ?case by (cases xs') auto
next
  case (Cons x xs)
  then show ?case by (cases xs') auto
qed

lemma filter_upt_split:
  assumes "filter P [0..<n] = xs @ i # ys"
  shows "filter P [0..<Suc i] = xs @ [i]"
proof -
  have i: "i \<in> set (filter P [0..<n])"
    by (simp add: assms)
  then have "i < n" "P i"
    by auto
  then have "[0..<n] = [0..<i] @ i # [Suc i..<n]"
    by (metis le_add1 le_add_same_cancel1 less_imp_add_positive upt_add_eq_append upt_conv_Cons)
  then have "filter P [0..<n] = filter P [0..<i] @ i # filter P [Suc i..<n]"
    using \<open>P i\<close> by simp
  with assms have e: "xs @ i # ys = filter P [0..<i] @ i # filter P [Suc i..<n]"
    by simp
  have d: "distinct (xs @ i # ys)"
    using assms [symmetric] by simp
  then have "i \<notin> set xs" by auto
  moreover have "i \<notin> set (filter P [0..<i])" by simp
  ultimately have "xs = filter P [0..<i]"
    using e by (rule split_unique)
  with \<open>P i\<close> show ?thesis by simp
qed

lemma nullish_not_truthy: "nullish c \<Longrightarrow> \<not> obj_truthy c"
  by (induction c rule: nullish.induct) auto

lemma filter_features_skip:
  assumes "nullish (check f)"
  shows "filter_features m i (fs1 @ f # fs2) w =
     (case filter_features m i fs1 w of
        (Inl e, evs1, w1) \<Rightarrow> (Inl e, evs1, w1)
      | (Inr k1, evs1, w1) \<Rightarrow>
          (case filter_features m (Suc (i + length fs1)) fs2 w1 of
             (Inl e, evs2, w2) \<Rightarrow> (Inl e, evs1 @ evs2, w2)
           | (Inr k2, evs2, w2) \<Rightarrow> (Inr (k1 @ k2), evs1 @ evs2, w2)))"
  using nullish_not_truthy [OF assms]
  by (simp add: filter_features_append [of m i fs1 "f # fs2"] split: prod.splits sum.splits)

lemma filter_features_skip_events:
  assumes "nullish (check f)" and "filter_features m i (fs1 @ f # fs2) w = (r, evs, w')"
  shows "Checked (i + length fs1) b \<notin> set evs"
proof -
  obtain r1 evs1 w1 where t1: "filter_features m i fs1 w = (r1, evs1, w1)"
    by (cases "filter_features m i fs1 w") auto
  have n1: "Checked (i + length fs1) b \<notin> set evs1"
    using filter_features_events [OF t1, of "Checked (i + length fs1) b"] by auto
  show ?thesis
  proof (cases r1)
    case (Inl e)
    with assms(2) t1 n1 show ?thesis
      by (simp add: filter_features_skip [OF assms(1)])
  next
    case (Inr k1)
    obtain r2 evs2 w2 where t2: "filter_features m (Suc (i + length fs1)) fs2 w1 = (r2, evs2, w2)"
      by (cases "filter_features m (Suc (i + length fs1)) fs2 w1") auto
    have n2: "Checked (i + length fs1) b \<notin> set evs2"
      using filter_features_no_earlier [OF t2, of "i + length fs1" b] by simp
    from assms(2) t1 t2 Inr have "evs = evs1 @ evs2"
      by (cases r2) (simp_all add: filter_features_skip [OF assms(1)])
    with n1 n2 show ?thesis by simp
  qed
qed

lemma for_each_respond_raised_call:
  "for_each_respond m kept w = (r, evs, w') \<Longrightarrow> Raised i \<in> set evs \<Longrightarrow>
     \<exists>f w1 e. (i, f) \<in> set kept \<and> call (respond f) (Args1 m) w1 = (Inl e, w') \<and> r = Some e"
proof (induction kept arbitrary: w r evs w')
  case Nil
  then show ?case by simp
next
  case (Cons p kept)
  obtain j f where p: "p = (j, f)" by (cases p)
  from Cons.prems p have ca: "callable (respond f)"
    by (auto split: if_splits)
  obtain res w1 where c: "call (respond f) (Args1 m) w = (res, w1)"
    by (cases "call (respond f) (Args1 m) w") auto
  show ?case
  proof (cases res)
    case (Inl e)
    with Cons.prems p ca c have "r = Some e" "w' = w1" "i = j"
      by auto
    with c Inl p show ?thesis
      by auto
  next
    case (Inr v)
    obtain r2 evs2 w2 where t: "for_each_respond m kept w1 = (r2, evs2, w2)"
      by (cases "for_each_respond m kept w1") auto
    with Cons.prems p ca c Inr have e: "r = r2" "evs = Responded j # evs2" "w' = w2"
      by auto
    with Cons.prems(2) have "Raised i \<in> set evs2" by simp
    from Cons.IH [OF t this] e show ?thesis
      by auto
  qed
qed

lemma filter_features_checked_eq:
  "filter_features m i fs w = (Inr kept, evs, w') \<Longrightarrow>
     checked evs = [j \<leftarrow> [i..<i + length fs]. obj_truthy (check (fs ! (j - i)))]"
proof (induction fs arbitrary: i w kept evs w')
  case Nil
  then show ?case by simp
next
  case (Cons f fs)
  have nth: "(f # fs) ! (j - i) = fs ! (j - Suc i)" if "Suc i \<le> j" for j
  proof -
    from that have "j - i = Suc (j - Suc i)" by arith
    then show ?thesis by simp
  qed
  have shift: "[j \<leftarrow> [Suc i..<Suc i + length fs]. obj_truthy (check ((f # fs) ! (j - i)))]
      = [j \<leftarrow> [Suc i..<Suc i + length fs]. obj_truthy (check (fs ! (j - Suc i)))]"
  proof (rule filter_cong)
    fix j assume "j \<in> set [Suc i..<Suc i + length fs]"
    then have "Suc i \<le> j" by (simp only: set_upt atLeastLessThan_iff)
    then show "obj_truthy (check ((f # fs) ! (j - i))) = obj_truthy (check (fs ! (j - Suc i)))"
      by (simp only: nth)
  qed simp
  show ?case
  proof (cases "obj_truthy (check f)")
    case False
    with Cons.prems have t: "filter_features m (Suc i) fs w = (Inr kept, evs, w')"
      by simp
    from Cons.IH [OF t] False shift show ?thesis
      by (simp only: length_Cons filter_upt_Cons) simp
  next
    case True
    obtain res w1 where c: "call (check f) (Args1 m) w = (res, w1)"
      by (cases "call (check f) (Args1 m) w") auto
    with Cons.prems True obtain v where v: "res = Inr v"
      by (cases res) auto
    obtain r2 evs2 w2 where t: "filter_features m (Suc i) fs w1 = (r2, evs2, w2)"
      by (cases "filter_features m (Suc i) fs w1") auto
    with Cons.prems True c v obtain kept2 where k: "r2 = Inr kept2"
      by (cases r2) auto
    from Cons.prems True c v t k have evs: "evs = Checked i (truthy v) # evs2"
      by auto
    from Cons.IH [OF t [unfolded k]] True shift evs show ?thesis
      by (simp only: length_Cons filter_upt_Cons) simp
  qed
qed

lemma filter_features_checked_call:
  "filter_features m i fs w = (r, evs, w') \<Longrightarrow> Checked j b \<in> set evs \<Longrightarrow>
     \<exists>w1 w2 v. call (check (fs ! (j - i))) (Args1 m) w1 = (Inr v, w2) \<and> truthy v = b"
proof (induction fs arbitrary: i w r evs w')
  case Nil
  then show ?case by simp
next
  case (Cons f fs)
  show ?case
  proof (cases "obj_truthy (check f)")
    case False
    with Cons.prems have t: "filter_features m (Suc i) fs w = (r, evs, w')"
      by simp
    from filter_features_events [OF t Cons.prems(2)] have "Suc i \<le> j" by auto
    with Cons.IH [OF t Cons.prems(2)] show ?thesis
      by (simp add: Suc_diff_le)
  next
    case True
    obtain res w1 where c: "call (check f) (Args1 m) w = (res, w1)"
      by (cases "call (check f) (Args1 m) w") auto
    show ?thesis
    proof (cases res)
      case (Inl e)
      with Cons.prems True c show ?thesis by auto
    next
      case (Inr v)
      obtain r2 evs2 w2 where t: "filter_features m (Suc i) fs w1 = (r2, evs2, w2)"
        by (cases "filter_features m (Suc i) fs w1") auto
      with Cons.prems True c Inr have evs: "evs = Checked i (truthy v) # evs2"
        by (auto split: sum.splits)
      show ?thesis
      proof (cases "Checked j b \<in> set evs2")
        case True
        from filter_features_events [OF t True] have "Suc i \<le> j" by auto
        with Cons.IH [OF t True] show ?thesis
          by (simp add: Suc_diff_le)
      next
        case False
        with evs Cons.prems(2) have "j = i" "b = truthy v" by auto
        with c Inr show ?thesis by auto
      qed
    qed
  qed
qed

lemma for_each_respond_responded_call:
  "for_each_respond m kept w = (None, evs, w') \<Longrightarrow> (j, f) \<in> set kept \<Longrightarrow>
     \<exists>w1 w2 v. call (respond f) (Args1 m) w1 = (Inr v, w2)"
proof (induction kept arbitrary: w evs w')
  case Nil
  then show ?case by simp
next
  case (Cons p kept)
  obtain i g where p: "p = (i, g)" by (cases p)
  from Cons.prems(1) p have ca: "callable (respond g)"
    by (auto split: if_splits)
  obtain res w1 where c: "call (respond g) (Args1 m) w = (res, w1)"
    by (cases "call (respond g) (Args1 m) w") auto
  with Cons.prems(1) p ca obtain v where v: "res = Inr v"
    by (cases res) auto
  obtain r2 evs2 w2 where t: "for_each_respond m kept w1 = (r2, evs2, w2)"
    by (cases "for_each_respond m kept w1") auto
  with Cons.prems(1) p ca c v have r2: "r2 = None"
    by auto
  show ?case
  proof (cases "(j, f) \<in> set kept")
    case True
    from Cons.IH [OF t [unfolded r2] True] show ?thesis .
  next
    case False
    with Cons.prems(2) p have "f = g" by auto
    with c v show ?thesis by auto
  qed
qed

lemmas world_defs = feature_def init_def user_message_def dispatch_def answers_def throws_def
  recorder_def

section \<open>No pattern is busy between two dispatches\<close>

text \<open>
  A successful \<open>test\<close> leaves \<open>lastIndex\<close> behind the match; the responder of the same
  feature resets it with \<open>match\<close>. So a dispatch that completes without an exception
  leaves no RegExp object busy, if none was before (lemma
  \<open>dispatch_leaves_patterns_idle\<close>); the initial state and the registration of a command
  keep this as well.
\<close>

lemma test_fields:
  "test ro s = (b, ro') \<Longrightarrow>
     pat ro' = pat ro \<and> global ro' = global ro \<and> (\<not> b \<longrightarrow> global ro \<longrightarrow> lastIndex ro' = 0)
     \<and> (\<not> global ro \<longrightarrow> ro' = ro)"
  by (auto simp: test_def Let_def split: if_splits option.splits)

lemma match_fields:
  "match ro s = (ms, ro') \<Longrightarrow>
     pat ro' = pat ro \<and> global ro' = global ro \<and> (global ro \<longrightarrow> lastIndex ro' = 0)
     \<and> (\<not> global ro \<longrightarrow> ro' = ro)"
  by (auto simp: match_def Let_def split: if_splits option.splits)

lemma replace_empty_fields:
  "replace_empty ro s = (t, ro') \<Longrightarrow>
     pat ro' = pat ro \<and> global ro' = global ro \<and> (global ro \<longrightarrow> lastIndex ro' = 0)
     \<and> (\<not> global ro \<longrightarrow> ro' = ro)"
  by (auto simp: replace_empty_def split: if_splits option.splits)

lemma busy_update_idle:
  assumes "a < length (heap w)" and "global ro \<longrightarrow> lastIndex ro = 0"
  shows "busy (w\<lparr>heap := (heap w)[a := ro]\<rparr>) \<subseteq> busy w - {a}"
  using assms by (auto simp: busy_def nth_list_update)

lemma busy_update_any:
  assumes "a < length (heap w)"
  shows "busy (w\<lparr>heap := (heap w)[a := ro]\<rparr>) \<subseteq> busy w \<union> {a}"
  using assms by (auto simp: busy_def nth_list_update)

lemma send_heap: "send v w = (res, w') \<Longrightarrow> heap w' = heap w \<and> features w' = features w"
  by (auto simp: send_def split: jsval.splits)

lemma busy_cong: "heap w' = heap w \<Longrightarrow> busy w' = busy w"
  by (simp add: busy_def)

lemma call_no_test:
  "no_test c \<Longrightarrow> call c args w = (res, w') \<Longrightarrow>
     busy w' \<subseteq> busy w \<and> features w' = features w \<and> length (heap w') = length (heap w)"
proof (induction c arbitrary: args w res w')
  case (Val v)
  then show ?case by simp
next
  case (Fun f)
  then show ?case by (auto simp: busy_def split: prod.splits)
next
  case (PatternCheck p)
  then show ?case by simp
next
  case (PatternRespond p r)
  show ?case
  proof (cases "\<exists>m a. arg_message args = Some m \<and> p = Val (RegExp a) \<and> a < length (heap w)")
    case False
    with PatternRespond.prems(2) have "w' = w"
      by (auto split: option.splits obj.splits jsval.splits if_splits)
    then show ?thesis by simp
  next
    case True
    then obtain m a where m: "arg_message args = Some m" "p = Val (RegExp a)" "a < length (heap w)"
      by blast
    obtain ms ro where ma: "match (heap w ! a) (msg_text m) = (ms, ro)"
      by (cases "match (heap w ! a) (msg_text m)") auto
    let ?w = "w\<lparr>heap := (heap w)[a := ro]\<rparr>"
    from PatternRespond.prems(2) m ma have c: "call r (Args2 m ms) ?w = (res, w')"
      by simp
    have "busy ?w \<subseteq> busy w"
    proof (cases "global (heap w ! a)")
      case True
      with match_fields [OF ma] busy_update_idle [OF m(3), of ro] show ?thesis by auto
    next
      case False
      with match_fields [OF ma] have "ro = heap w ! a" by simp
      then show ?thesis by (simp add: busy_def)
    qed
    with PatternRespond.IH(2) [OF _ c] PatternRespond.prems(1) show ?thesis
      by auto
  qed
next
  case (CommandRespond a sep r)
  show ?case
  proof (cases "\<exists>m. arg_message args = Some m \<and> a < length (heap w)")
    case False
    with CommandRespond.prems(2) have "w' = w"
      by (auto split: option.splits if_splits)
    then show ?thesis by simp
  next
    case True
    then obtain m where m: "arg_message args = Some m" "a < length (heap w)"
      by blast
    obtain t ro where re: "replace_empty (heap w ! a) (msg_text m) = (t, ro)"
      by (cases "replace_empty (heap w ! a) (msg_text m)") auto
    let ?w = "w\<lparr>heap := (heap w)[a := ro]\<rparr>"
    from CommandRespond.prems(2) m re
    have c: "call r (Args2 m (Some (split (trim t) sep))) ?w = (res, w')"
      by simp
    have "busy ?w \<subseteq> busy w"
    proof (cases "global (heap w ! a)")
      case True
      with replace_empty_fields [OF re] busy_update_idle [OF m(2), of ro] show ?thesis by auto
    next
      case False
      with replace_empty_fields [OF re] have "ro = heap w ! a" by simp
      then show ?thesis by (simp add: busy_def)
    qed
    with CommandRespond.IH [OF _ c] CommandRespond.prems(1) show ?thesis
      by auto
  qed
next
  case (RandomRespond sup)
  show ?case
  proof (cases "\<exists>xs. sup = Val (Array xs)")
    case True
    then obtain xs where xs: "sup = Val (Array xs)" by blast
    show ?thesis
    proof (cases "draws w")
      case Nil
      with RandomRespond.prems(2) xs show ?thesis by simp
    next
      case (Cons d ds)
      with RandomRespond.prems(2) xs
      have "send (if d < length xs then Str (xs ! d) else Undefined) (w\<lparr>draws := ds\<rparr>) = (res, w')"
        by simp
      from send_heap [OF this] busy_cong [of w' w] show ?thesis
        by simp
    qed
  next
    case False
    obtain r1 w1 where c: "call sup Args0 w = (r1, w1)"
      by (cases "call sup Args0 w") auto
    from RandomRespond.IH [OF _ c] RandomRespond.prems(1)
    have i: "busy w1 \<subseteq> busy w \<and> features w1 = features w \<and> length (heap w1) = length (heap w)"
      by simp
    show ?thesis
    proof (cases r1)
      case (Inl e)
      with RandomRespond.prems(2) False c have "w' = w1"
        by (auto split: obj.splits jsval.splits)
      with i show ?thesis by simp
    next
      case (Inr v)
      with RandomRespond.prems(2) False c have "send v w1 = (res, w')"
        by (auto split: obj.splits jsval.splits)
      from send_heap [OF this] i busy_cong [of w' w1] show ?thesis
        by simp
    qed
  qed
next
  case HelpRespond
  show ?case
  proof (cases "help_text (features w)")
    case None
    with HelpRespond.prems(2) show ?thesis by simp
  next
    case (Some t)
    with HelpRespond.prems(2) have "send (Str t) w = (res, w')" by simp
    from send_heap [OF this] busy_cong [of w' w] show ?thesis
      by simp
  qed
qed


lemma patterns_of_Cons:
  "patterns_of ((j, f) # kept) =
     (case check f of PatternCheck (Val (RegExp a)) \<Rightarrow> {a} | _ \<Rightarrow> {}) \<union> patterns_of kept"
  by (auto simp: patterns_of_def split: obj.splits jsval.splits)

lemma call_check_paired:
  assumes "paired f" and "call (check f) (Args1 m) w = (Inr v, w1)"
  shows "busy w1 \<subseteq> busy w \<union> (if truthy v then patterns_of [(i, f)] else {})
         \<and> features w1 = features w \<and> length (heap w1) = length (heap w)"
proof (cases "\<exists>p. check f = PatternCheck p")
  case False
  with assms(1) have "no_test (check f)"
    by (auto simp: paired_def split: obj.splits)
  from call_no_test [OF this assms(2)] show ?thesis by auto
next
  case True
  then obtain p where p: "check f = PatternCheck p" by blast
  with assms(2) obtain a where a: "p = Val (RegExp a)" "a < length (heap w)"
    by (auto split: obj.splits jsval.splits if_splits)
  obtain b ro where t: "test (heap w ! a) (msg_text m) = (b, ro)"
    by (cases "test (heap w ! a) (msg_text m)") auto
  with assms(2) p a have v: "v = Bool b" and w1: "w1 = w\<lparr>heap := (heap w)[a := ro]\<rparr>"
    by auto
  show ?thesis
  proof (cases b)
    case True
    with busy_update_any [OF a(2), of ro] p a v w1 show ?thesis
      by (auto simp: patterns_of_def)
  next
    case False
    show ?thesis
    proof (cases "global (heap w ! a)")
      case True
      with test_fields [OF t] False busy_update_idle [OF a(2), of ro] v w1 show ?thesis
        by auto
    next
      case g: False
      with test_fields [OF t] have "ro = heap w ! a" by simp
      with v w1 False show ?thesis by (simp add: busy_def)
    qed
  qed
qed

lemma filter_features_busy:
  "\<forall>f \<in> set fs. paired f \<Longrightarrow> filter_features m i fs w = (Inr kept, evs, w') \<Longrightarrow>
     busy w' \<subseteq> busy w \<union> patterns_of kept \<and> features w' = features w
     \<and> length (heap w') = length (heap w)"
proof (induction fs arbitrary: i w kept evs w')
  case Nil
  then show ?case by simp
next
  case (Cons f fs)
  show ?case
  proof (cases "obj_truthy (check f)")
    case False
    with Cons.prems have "filter_features m (Suc i) fs w = (Inr kept, evs, w')"
      by simp
    from Cons.IH [OF _ this] Cons.prems(1) show ?thesis by simp
  next
    case True
    obtain res w1 where c: "call (check f) (Args1 m) w = (res, w1)"
      by (cases "call (check f) (Args1 m) w") auto
    with Cons.prems True obtain v where v: "res = Inr v"
      by (cases res) auto
    obtain r2 evs2 w2 where t: "filter_features m (Suc i) fs w1 = (r2, evs2, w2)"
      by (cases "filter_features m (Suc i) fs w1") auto
    with Cons.prems True c v obtain kept2 where k: "r2 = Inr kept2"
      by (cases r2) auto
    from Cons.prems True c v t k
    have kept: "kept = (if truthy v then (i, f) # kept2 else kept2)" and w': "w' = w2"
      by auto
    have pf: "paired f" using Cons.prems(1) by simp
    from call_check_paired [OF pf c [unfolded v], of i]
    have 1: "busy w1 \<subseteq> busy w \<union> (if truthy v then patterns_of [(i, f)] else {})"
      "features w1 = features w" "length (heap w1) = length (heap w)"
      by simp_all
    from Cons.IH [OF _ t [unfolded k]] Cons.prems(1)
    have 2: "busy w2 \<subseteq> busy w1 \<union> patterns_of kept2" "features w2 = features w1"
      "length (heap w2) = length (heap w1)"
      by simp_all
    have "patterns_of [(i, f)] \<union> patterns_of kept2 = patterns_of ((i, f) # kept2)"
      by (auto simp: patterns_of_def)
    with 1 2 kept w' show ?thesis
      by (auto split: if_splits)
  qed
qed

lemma for_each_respond_busy:
  "\<forall>p \<in> set kept. paired (snd p) \<Longrightarrow> for_each_respond m kept w = (None, evs, w') \<Longrightarrow>
     busy w' \<subseteq> busy w - patterns_of kept \<and> features w' = features w
     \<and> length (heap w') = length (heap w)"
proof (induction kept arbitrary: w evs w')
  case Nil
  then show ?case by (auto simp: patterns_of_def)
next
  case (Cons p kept)
  obtain i f where p: "p = (i, f)" by (cases p)
  from Cons.prems(2) p have ca: "callable (respond f)"
    by (auto split: if_splits)
  obtain res w1 where c: "call (respond f) (Args1 m) w = (res, w1)"
    by (cases "call (respond f) (Args1 m) w") auto
  with Cons.prems(2) p ca obtain v where v: "res = Inr v"
    by (cases res) auto
  obtain r2 evs2 w2 where t: "for_each_respond m kept w1 = (r2, evs2, w2)"
    by (cases "for_each_respond m kept w1") auto
  with Cons.prems(2) p ca c v have r2: "r2 = None" "w' = w2"
    by auto
  have pf: "paired f" using Cons.prems(1) p by simp
  have 1: "busy w1 \<subseteq> busy w - patterns_of [(i, f)] \<and> features w1 = features w
      \<and> length (heap w1) = length (heap w)"
  proof (cases "\<exists>a. check f = PatternCheck (Val (RegExp a))")
    case False
    then have e: "patterns_of [(i, f)] = {}"
      by (auto simp: patterns_of_def)
    have "no_test (respond f)"
      using pf by (auto simp: paired_def split: obj.splits)
    from call_no_test [OF this c] e show ?thesis by simp
  next
    case True
    then obtain a where a: "check f = PatternCheck (Val (RegExp a))" by blast
    with pf obtain r where r: "respond f = PatternRespond (Val (RegExp a)) r" "no_test r"
      by (auto simp: paired_def split: obj.splits)
    from c v r have al: "a < length (heap w)"
      by (auto split: if_splits)
    obtain ms ro where ma: "match (heap w ! a) (msg_text m) = (ms, ro)"
      by (cases "match (heap w ! a) (msg_text m)") auto
    let ?w = "w\<lparr>heap := (heap w)[a := ro]\<rparr>"
    from c r al ma have c2: "call r (Args2 m ms) ?w = (res, w1)"
      by simp
    have "busy ?w \<subseteq> busy w - {a}"
    proof (cases "global (heap w ! a)")
      case True
      with match_fields [OF ma] busy_update_idle [OF al, of ro] show ?thesis by auto
    next
      case False
      with match_fields [OF ma] have "ro = heap w ! a" by simp
      with False show ?thesis by (auto simp: busy_def)
    qed
    moreover have "patterns_of [(i, f)] = {a}"
      using a by (auto simp: patterns_of_def)
    ultimately show ?thesis
      using call_no_test [OF r(2) c2] by auto
  qed
  from Cons.IH [OF _ t [unfolded r2(1)]] Cons.prems(1)
  have 2: "busy w2 \<subseteq> busy w1 - patterns_of kept \<and> features w2 = features w1
      \<and> length (heap w2) = length (heap w1)"
    by simp
  have "patterns_of (p # kept) = patterns_of [(i, f)] \<union> patterns_of kept"
    by (auto simp: patterns_of_def p)
  with 1 2 have "busy w2 \<subseteq> busy w - patterns_of (p # kept) \<and> features w2 = features w
      \<and> length (heap w2) = length (heap w)"
    by auto
  then show ?case
    by (simp add: r2(2))
qed

lemma dispatch_leaves_patterns_idle:
  assumes "dispatch m w = (None, evs, w')" and "\<forall>f \<in> set (features w). paired f"
    and "busy w = {}"
  shows "busy w' = {} \<and> features w' = features w \<and> length (heap w') = length (heap w)"
proof (cases "sender_type m = str ''user''")
  case False
  with assms show ?thesis
    by (simp add: dispatch_def)
next
  case True
  from True assms(1) show ?thesis
  proof (cases rule: dispatch_user)
    case (check_raised e)
    then show ?thesis by simp
  next
    case (filtered kept evs0 w0 evs1)
    have "\<forall>p \<in> set kept. paired (snd p)"
    proof
      fix p assume "p \<in> set kept"
      then have "(fst p, snd p) \<in> set kept" by simp
      from filter_features_nth [OF filtered(1) this] assms(2) show "paired (snd p)"
        by simp
    qed
    from for_each_respond_busy [OF this filtered(2)]
      filter_features_busy [OF assms(2) filtered(1)] assms(3)
    show ?thesis by auto
  qed
qed

lemma registered_idle:
  assumes "\<forall>f \<in> set (features w). paired f" and "busy w = {}" and "no_test r"
  shows "(\<forall>f \<in> set (features (registered name t sp r w)). paired f)
         \<and> busy (registered name t sp r w) = {}"
  using assms by (auto simp: registered_def paired_def busy_def nth_append)

lemma init_idle: "(\<forall>f \<in> set (features (init u)). paired f) \<and> busy (init u) = {}"
  by (simp add: init_def busy_def)

section \<open>Installing a plugin\<close>











section \<open>Commands and the help listing\<close>

lemma starts_ban:
  "\<not> starts_command (str ''ban'') (str ''/banana'')"
  "starts_command (str ''ban'') (str ''/ban'')"
  "starts_command (str ''ban'') (str ''/ban extra text'')"
  by (simp_all add: starts_command_def str_def is_space_def)

lemma command_registered:
  assumes "command name d sep r w = Inr w1"
  obtains t sp r1 where "w1 = registered name t sp r1 w"
  using assms by (auto simp: command_eq split: sum.splits)

lemma test_literal_fresh:
  "fst (test \<lparr>pat = literal Empty s, global = True, lastIndex = 0\<rparr> t) = sublist s t"
  using search_literal [of s True t]
  by (auto simp: test_def split: option.splits)

lemma pattern_literal:
  "pattern (Val (Str s)) (Fun f) (Val Undefined) w =
     Inr (w\<lparr>heap := heap w @ [\<lparr>pat = literal Empty s, global = True, lastIndex = 0\<rparr>],
           features := features w @
             [\<lparr>desc = Val (Str []), check = PatternCheck (Val (RegExp (length (heap w)))),
               respond = PatternRespond (Val (RegExp (length (heap w)))) (Fun f)\<rparr>]\<rparr>)"
  by (simp add: pattern_def compile_quote new_RegExp_def feature_def)

lemma stale_command_eq:
  "stale_command =
     Inr ((init [])\<lparr>heap := [\<lparr>pat = command_regex (str ''ban''), global = True, lastIndex = 0\<rparr>],
           features :=
             [\<lparr>desc = Val (Str []), check = Fun (answers True), respond = Fun (throws 1)\<rparr>,
              \<lparr>desc = Val (Str (str ''/ban - bans a user'')), check = PatternCheck (Val (RegExp 0)),
                respond = PatternRespond (Val (RegExp 0))
                  (CommandRespond 0 whitespace_run (Fun recorder))\<rparr>]\<rparr>)"
  by (simp add: stale_command_def listen_def command_eq collapse_def registered_def
      feature_def init_def trim_def is_space_def str_def)

lemma command_check_at_lastIndex:
  assumes "command name d sep r w = Inr w1" and "later_state w1 w2"
  shows "fst (call (check (last (features w1))) (Args1 m) w2) =
           Inr (Bool (lastIndex (heap w2 ! length (heap w)) = 0 \<and> starts_command name (msg_text m)))
         \<and> lastIndex (heap w1 ! length (heap w)) = 0
         \<and> \<not> starts_command (str ''ban'') (str ''/banana'')
         \<and> starts_command (str ''ban'') (str ''/ban'')
         \<and> starts_command (str ''ban'') (str ''/ban extra text'')"
proof -
  from assms(1) obtain t sp r1 where w1: "w1 = registered name t sp r1 w"
    by (rule command_registered)
  let ?a = "length (heap w)"
  have c: "check (last (features w1)) = PatternCheck (Val (RegExp ?a))"
    and h1: "heap w1 = heap w @ [\<lparr>pat = command_regex name, global = True, lastIndex = 0\<rparr>]"
    by (simp_all add: w1 registered_def)
  from assms(2) h1 have a: "?a < length (heap w2)"
    and p: "pat (heap w2 ! ?a) = command_regex name" "global (heap w2 ! ?a) = True"
    by (simp_all add: later_state_def list_all_iff)
  have ro: "heap w2 ! ?a =
      \<lparr>pat = command_regex name, global = True, lastIndex = lastIndex (heap w2 ! ?a)\<rparr>"
    using p by (cases "heap w2 ! ?a") simp
  have "fst (test (heap w2 ! ?a) (msg_text m)) =
      (lastIndex (heap w2 ! ?a) = 0 \<and> starts_command name (msg_text m))"
    by (subst ro) (simp add: test_command_regex)
  with a c h1 starts_ban show ?thesis
    by (simp add: split_beta)
qed








section \<open>The claims\<close>

text \<open>
  C5. The claim: \<open>random(name, supply)\<close>, with the description omitted, completes
  without raising and registers the command, as the form with a description does. The
  code raises: \<open>random\<close> passes \<open>undefined\<close> as the description to the three-argument
  form of \<open>command\<close>, which calls \<open>desc.trim()\<close>. This holds for an array and for a
  supplier, under every name and in every state; the form with a description registers
  the command.
\<close>

theorem random_without_description_raises:
  "random name (Val (Array xs)) (Val Undefined) w = Inl TypeError
   \<and> random name (Fun f) (Val Undefined) w = Inl TypeError
   \<and> random name (Val (Str d)) (Val (Array xs)) w =
       Inr (registered name (str '' - '' @ trim d) whitespace_run (RandomRespond (Val (Array xs))) w)"
  by (simp add: random_def command_eq collapse_def)

text \<open>
  C3. The claim: the responder of a command receives the text after \<open>/name\<close>, trimmed
  and split on the separator, the empty array when no text remains, and
  \<open>["extra", "text"]\<close> for \<open>/ban extra text\<close>. With the default separator the code passes
  an array holding one empty string when no text remains: \<open>''.split(/\s+/g)\<close> is \<open>['']\<close>.
  The responder below records what it receives; the command is registered with a
  description \<open>d\<close> and the default separator.
\<close>

theorem command_without_arguments_passes_empty_string:
  "received (command (str ''ban'') (Val (Str d)) (Fun recorder) (Val Undefined) (init []))
     (str ''/ban'') = [Some [[]]]
   \<and> received (command (str ''ban'') (Val (Str d)) (Fun recorder) (Val Undefined) (init []))
     (str ''/ban extra text'') = [Some [str ''extra'', str ''text'']]"
  by (simp add: eval_defs)

text \<open>
  C4. The claim: with two arguments \<open>(name, respond)\<close> the description is \<open>/name\<close> and
  the separator defaults to runs of whitespace, as in the three-argument form. The code
  leaves \<open>sep\<close> undefined in the two-argument branch, and \<open>new RegExp(undefined, 'g')\<close> is
  the empty pattern: the text is split between every two code units. The three-argument
  branch assigns \<^verbatim>\<open>/\s+/\<close>.
\<close>

theorem command_two_arguments_splits_on_empty_pattern:
  "command name (Fun f) (Val Undefined) (Val Undefined) w = Inr (registered name [] Empty (Fun f) w)
   \<and> command name (Val (Str d)) (Fun f) (Val Undefined) w =
       Inr (registered name (str '' - '' @ trim d) whitespace_run (Fun f) w)
   \<and> received (command (str ''ban'') (Fun recorder) (Val Undefined) (Val Undefined) (init []))
       (str ''/ban extra text'') =
       [Some [str ''e'', str ''x'', str ''t'', str ''r'', str ''a'', str '' '',
              str ''t'', str ''e'', str ''x'', str ''t'']]
   \<and> received (command (str ''ban'') (Val (Str d)) (Fun recorder) (Val Undefined) (init []))
       (str ''/ban extra text'') = [Some [str ''extra'', str ''text'']]"
  by (simp add: eval_defs)

text \<open>
  C2. The claim: a message whose \<open>sender_type\<close> is not \<open>user\<close> invokes no responder; a
  message of a user invokes the responder of each feature whose check returns true, once
  and in registry order, and of no other feature. As stated this fails when a check
  throws: \<open>filter\<close> is abandoned and no responder is called, although the check of
  feature 0 has returned true.
\<close>

theorem check_exception_counterexample:
  "sender_type (user_message (str ''hi'')) = str ''user''
   \<and> dispatch (user_message (str ''hi'')) check_throws =
       (Some (Thrown 0), [Checked 0 True], check_throws)
   \<and> Checked 0 True \<in> set [Checked 0 True]
   \<and> responded [Checked 0 True] = []"
  by (simp add: check_throws_def world_defs)

text \<open>
  C2, amended: a message that is not from a user calls nothing and changes nothing. For
  a message from a user whose dispatch completes without an exception, the check of
  every feature that has one is called on the message, once and in registry order; the
  responders called are those of the features whose check returned a true value, once
  each and in registry order, and each of these calls returned.
\<close>

theorem dispatch_invokes_matches_in_order:
  assumes "dispatch m w = (None, evs, w')"
  shows "if sender_type m = str ''user''
         then checked evs = [i \<leftarrow> [0..<length (features w)]. obj_truthy (check (features w ! i))]
              \<and> (\<forall>i b. Checked i b \<in> set evs \<longrightarrow>
                    (\<exists>w1 w2 v. call (check (features w ! i)) (Args1 m) w1 = (Inr v, w2)
                               \<and> truthy v = b))
              \<and> responded evs = [i \<leftarrow> [0..<length (features w)]. Checked i True \<in> set evs]
              \<and> (\<forall>i \<in> set (responded evs).
                    \<exists>w1 w2 v. call (respond (features w ! i)) (Args1 m) w1 = (Inr v, w2))
              \<and> distinct (checked evs)
         else evs = [] \<and> w' = w"
proof (cases "sender_type m = str ''user''")
  case False
  with assms show ?thesis
    by (simp add: dispatch_def)
next
  case True
  from True assms show ?thesis
  proof (cases rule: dispatch_user)
    case (check_raised e)
    then show ?thesis by simp
  next
    case (filtered kept evs0 w0 evs1)
    have evs1: "evs1 = map (\<lambda>p. Responded (fst p)) kept"
      using for_each_respond_events [OF filtered(2)] .
    have r0: "responded evs0 = []"
      using filter_features_events [OF filtered(1)]
      by (intro responded_checked_only) blast
    have c1: "checked evs1 = []"
      using for_each_respond_checked [OF filtered(2)] .
    have a: "checked evs = [i \<leftarrow> [0..<length (features w)]. obj_truthy (check (features w ! i))]"
      using filter_features_checked_eq [OF filtered(1)]
      by (simp add: filtered(3) checked_append c1)
    have b: "\<exists>w1 w2 v. call (check (features w ! i)) (Args1 m) w1 = (Inr v, w2) \<and> truthy v = b"
      if "Checked i b \<in> set evs" for i b
    proof -
      from that have "Checked i b \<in> set evs0"
        by (auto simp: filtered(3) evs1)
      from filter_features_checked_call [OF filtered(1) this] show ?thesis by simp
    qed
    have "[i \<leftarrow> [0..<length (features w)]. Checked i True \<in> set evs]
        = [i \<leftarrow> [0..<length (features w)]. Checked i True \<in> set evs0]"
      by (rule filter_cong) (auto simp: filtered(3) evs1)
    with filter_features_kept [OF filtered(1)]
    have c: "responded evs = [i \<leftarrow> [0..<length (features w)]. Checked i True \<in> set evs]"
      and rk: "responded evs = map fst kept"
      by (simp_all add: filtered(3) responded_append r0 evs1 responded_map)
    have d: "\<exists>w1 w2 v. call (respond (features w ! i)) (Args1 m) w1 = (Inr v, w2)"
      if "i \<in> set (responded evs)" for i
    proof -
      from that rk obtain f where f: "(i, f) \<in> set kept" by auto
      from filter_features_nth [OF filtered(1) f] have "f = features w ! i" by simp
      with for_each_respond_responded_call [OF filtered(2) f] show ?thesis by simp
    qed
    have e: "distinct (checked evs)"
      using filter_features_checked [OF filtered(1)]
      by (simp add: filtered(3) checked_append c1)
    from True a b c d e show ?thesis
      by auto
  qed
qed

theorem dispatch_invokes_matches_in_order_witness:
  "dispatch (user_message (str ''hi'')) three_features =
     (None, [Checked 0 True, Checked 1 False, Checked 2 True, Responded 0, Responded 2],
      three_features\<lparr>user := [None, None]\<rparr>)
   \<and> (if sender_type (user_message (str ''hi'')) = str ''user''
       then checked [Checked 0 True, Checked 1 False, Checked 2 True, Responded 0, Responded 2]
              = [i \<leftarrow> [0..<length (features three_features)].
                   obj_truthy (check (features three_features ! i))]
            \<and> (\<forall>i b. Checked i b \<in> set [Checked 0 True, Checked 1 False, Checked 2 True,
                                           Responded 0, Responded 2] \<longrightarrow>
                  (\<exists>w1 w2 v. call (check (features three_features ! i))
                                (Args1 (user_message (str ''hi''))) w1 = (Inr v, w2)
                             \<and> truthy v = b))
            \<and> responded [Checked 0 True, Checked 1 False, Checked 2 True, Responded 0, Responded 2]
                = [i \<leftarrow> [0..<length (features three_features)].
                     Checked i True \<in> set [Checked 0 True, Checked 1 False, Checked 2 True,
                                            Responded 0, Responded 2]]
            \<and> (\<forall>i \<in> set (responded [Checked 0 True, Checked 1 False, Checked 2 True,
                                       Responded 0, Responded 2]).
                  \<exists>w1 w2 v. call (respond (features three_features ! i))
                               (Args1 (user_message (str ''hi''))) w1 = (Inr v, w2))
            \<and> distinct (checked [Checked 0 True, Checked 1 False, Checked 2 True,
                                   Responded 0, Responded 2])
       else [Checked 0 True, Checked 1 False, Checked 2 True, Responded 0, Responded 2] = []
            \<and> three_features\<lparr>user := [None, None]\<rparr> = three_features)
   \<and> sender_type (user_message (str ''hi'')) = str ''user''"
proof -
  have h: "dispatch (user_message (str ''hi'')) three_features =
     (None, [Checked 0 True, Checked 1 False, Checked 2 True, Responded 0, Responded 2],
      three_features\<lparr>user := [None, None]\<rparr>)"
    by (simp add: three_features_def world_defs)
  have u: "sender_type (user_message (str ''hi'')) = str ''user''"
    by (simp add: user_message_def)
  from h dispatch_invokes_matches_in_order [OF h] u show ?thesis
    by (intro conjI)
qed

text \<open>
  C1. The claim: when the responder of a matched feature throws, the dispatcher still
  calls the responder of every feature matched after it. The code has no \<open>try\<close>: the
  exception leaves \<open>forEach\<close>. Below both features match, the responder of feature 0
  throws, and the responder of feature 1 is not called.
\<close>

theorem responder_exception_counterexample:
  "sender_type (user_message (str ''hi'')) = str ''user''
   \<and> dispatch (user_message (str ''hi'')) respond_throws =
       (Some (Thrown 1), [Checked 0 True, Checked 1 True, Responded 0, Raised 0], respond_throws)
   \<and> Checked 1 True \<in> set [Checked 0 True, Checked 1 True, Responded 0, Raised 0]
   \<and> responded [Checked 0 True, Checked 1 True, Responded 0, Raised 0] = [0]"
  by (simp add: respond_throws_def world_defs)

text \<open>
  C1, amended: when the responder of feature \<open>i\<close> throws, the dispatch ends there: what
  leaves the dispatcher is the exception of that responder, in the state that responder
  left. The responders that have been called are those of the matched features up to
  \<open>i\<close>, once each and in registry order; no feature matched after \<open>i\<close> is invoked.
\<close>

theorem responder_exception_ends_dispatch:
  assumes "dispatch m w = (r, evs, w')" and "Raised i \<in> set evs"
  shows "(\<exists>e w1. r = Some e \<and> call (respond (features w ! i)) (Args1 m) w1 = (Inl e, w'))
         \<and> i < length (features w)
         \<and> responded evs = [j \<leftarrow> [0..<Suc i]. Checked j True \<in> set evs]
         \<and> last evs = Raised i"
proof -
  have user: "sender_type m = str ''user''"
    using assms by (auto simp: dispatch_def split: if_splits)
  from user assms(1) show ?thesis
  proof (cases rule: dispatch_user)
    case (check_raised e)
    with filter_features_events [OF check_raised(1) assms(2)] show ?thesis
      by auto
  next
    case (filtered kept evs0 w0 evs1)
    have "Raised i \<notin> set evs0"
      using filter_features_events [OF filtered(1), of "Raised i"] by auto
    with assms(2) filtered(3) have in1: "Raised i \<in> set evs1"
      by simp
    from for_each_respond_raised_call [OF filtered(2) in1]
    obtain g w1 e where g: "(i, g) \<in> set kept" "call (respond g) (Args1 m) w1 = (Inl e, w')"
      "r = Some e"
      by blast
    from filter_features_nth [OF filtered(1) g(1)]
    have i: "i < length (features w)" "g = features w ! i"
      by simp_all
    from for_each_respond_cases [OF filtered(2)] in1
    obtain pre j f post where k: "kept = pre @ (j, f) # post"
      "evs1 = map (\<lambda>p. Responded (fst p)) pre @ [Responded j, Raised j]"
      by auto
    with in1 have j: "j = i" by auto
    have r0: "responded evs0 = []"
      using filter_features_events [OF filtered(1)]
      by (intro responded_checked_only) blast
    have r: "responded evs = map fst pre @ [i]"
      by (simp add: filtered(3) responded_append r0 k(2) j responded_map)
    have "[j \<leftarrow> [0..<length (features w)]. Checked j True \<in> set evs0] = map fst pre @ i # map fst post"
      using filter_features_kept [OF filtered(1)] k(1) j by simp
    from filter_upt_split [OF this]
    have "[j \<leftarrow> [0..<Suc i]. Checked j True \<in> set evs0] = map fst pre @ [i]" .
    moreover have "[j \<leftarrow> [0..<Suc i]. Checked j True \<in> set evs]
        = [j \<leftarrow> [0..<Suc i]. Checked j True \<in> set evs0]"
      by (rule filter_cong) (auto simp: filtered(3) k(2))
    ultimately have "responded evs = [j \<leftarrow> [0..<Suc i]. Checked j True \<in> set evs]"
      "last evs = Raised i"
      using r by (simp_all add: filtered(3) k(2) j)
    with g(2,3) i show ?thesis
      by blast
  qed
qed

theorem responder_exception_ends_dispatch_witness:
  "dispatch (user_message (str ''hi'')) respond_throws =
     (Some (Thrown 1), [Checked 0 True, Checked 1 True, Responded 0, Raised 0], respond_throws)
   \<and> Raised 0 \<in> set [Checked 0 True, Checked 1 True, Responded 0, Raised 0]
   \<and> (\<exists>e w1. Some (Thrown 1) = Some e
         \<and> call (respond (features respond_throws ! 0)) (Args1 (user_message (str ''hi''))) w1
             = (Inl e, respond_throws))
   \<and> 0 < length (features respond_throws)
   \<and> responded [Checked 0 True, Checked 1 True, Responded 0, Raised 0] =
       [j \<leftarrow> [0..<Suc 0]. Checked j True \<in> set [Checked 0 True, Checked 1 True, Responded 0, Raised 0]]
   \<and> last [Checked 0 True, Checked 1 True, Responded 0, Raised 0] = Raised 0"
proof -
  have h: "dispatch (user_message (str ''hi'')) respond_throws =
     (Some (Thrown 1), [Checked 0 True, Checked 1 True, Responded 0, Raised 0], respond_throws)"
    by (simp add: respond_throws_def world_defs)
  have i: "Raised 0 \<in> set [Checked 0 True, Checked 1 True, Responded 0, Raised 0]"
    by simp
  from responder_exception_ends_dispatch [OF h i] h i show ?thesis
    by blast
qed

text \<open>
  C10. A feature whose \<open>check\<close> is \<open>null\<close> or \<open>undefined\<close> is skipped by every dispatch:
  its check and its responder are never called, and the pass of \<open>filter\<close> over the
  registry is the pass over the features before it followed by the pass over the
  features after it, so that nothing is raised and nothing changes on its account.
\<close>

theorem null_check_is_skipped:
  assumes "nullish (check f)" and "features w = fs1 @ f # fs2"
    and "dispatch m w = (r, evs, w')"
  shows "Checked (length fs1) True \<notin> set evs \<and> Checked (length fs1) False \<notin> set evs
         \<and> Responded (length fs1) \<notin> set evs \<and> Raised (length fs1) \<notin> set evs
         \<and> filter_features m 0 (features w) w =
             (case filter_features m 0 fs1 w of
                (Inl e, evs1, w1) \<Rightarrow> (Inl e, evs1, w1)
              | (Inr k1, evs1, w1) \<Rightarrow>
                  (case filter_features m (Suc (length fs1)) fs2 w1 of
                     (Inl e, evs2, w2) \<Rightarrow> (Inl e, evs1 @ evs2, w2)
                   | (Inr k2, evs2, w2) \<Rightarrow> (Inr (k1 @ k2), evs1 @ evs2, w2)))"
proof -
  have skip: "filter_features m 0 (features w) w =
             (case filter_features m 0 fs1 w of
                (Inl e, evs1, w1) \<Rightarrow> (Inl e, evs1, w1)
              | (Inr k1, evs1, w1) \<Rightarrow>
                  (case filter_features m (Suc (length fs1)) fs2 w1 of
                     (Inl e, evs2, w2) \<Rightarrow> (Inl e, evs1 @ evs2, w2)
                   | (Inr k2, evs2, w2) \<Rightarrow> (Inr (k1 @ k2), evs1 @ evs2, w2)))"
    using filter_features_skip [OF assms(1), of m 0 fs1 fs2 w]
    by (simp add: assms(2) split: prod.splits sum.splits)
  have events: "Checked (length fs1) b \<notin> set evs \<and> Responded (length fs1) \<notin> set evs
      \<and> Raised (length fs1) \<notin> set evs" for b
  proof (cases "sender_type m = str ''user''")
    case False
    with assms(3) show ?thesis
      by (simp add: dispatch_def)
  next
    case True
    from True assms(3) show ?thesis
    proof (cases rule: dispatch_user)
      case (check_raised e)
      from filter_features_skip_events [OF assms(1) check_raised(1) [unfolded assms(2)]]
        filter_features_events [OF check_raised(1)]
      show ?thesis by fastforce
    next
      case (filtered kept evs0 w0 evs1)
      have c0: "Checked (length fs1) b \<notin> set evs0" for b
        using filter_features_skip_events [OF assms(1) filtered(1) [unfolded assms(2)]]
        by simp
      have k: "length fs1 \<notin> fst ` set kept"
      proof
        assume "length fs1 \<in> fst ` set kept"
        then have "length fs1 \<in> set (map fst kept)" by simp
        then have "Checked (length fs1) True \<in> set evs0"
          by (simp add: filter_features_kept [OF filtered(1)])
        with c0 show False by simp
      qed
      have "Responded (length fs1) \<notin> set evs0" "Raised (length fs1) \<notin> set evs0"
        using filter_features_events [OF filtered(1)] by fastforce+
      with c0 k for_each_respond_no_Checked [OF filtered(2)]
        for_each_respond_responded [OF filtered(2)] for_each_respond_raised [OF filtered(2)]
      show ?thesis
        by (auto simp: filtered(3))
    qed
  qed
  from events [of True] events [of False] skip show ?thesis
    by blast
qed

theorem null_check_is_skipped_witness:
  "nullish (check \<lparr>desc = Val (Str []), check = Val Undefined, respond = Fun recorder\<rparr>)
   \<and> features null_check =
       [] @ \<lparr>desc = Val (Str []), check = Val Undefined, respond = Fun recorder\<rparr> #
         [\<lparr>desc = Val (Str (str ''b'')), check = Fun (answers True), respond = Fun recorder\<rparr>]
   \<and> dispatch (user_message (str ''hi'')) null_check =
       (None, [Checked 1 True, Responded 1], null_check\<lparr>user := [None]\<rparr>)
   \<and> Checked 0 True \<notin> set [Checked 1 True, Responded 1]
   \<and> Checked 0 False \<notin> set [Checked 1 True, Responded 1]
   \<and> Responded 0 \<notin> set [Checked 1 True, Responded 1]
   \<and> Raised 0 \<notin> set [Checked 1 True, Responded 1]"
proof -
  have a: "nullish (check \<lparr>desc = Val (Str []), check = Val Undefined, respond = Fun recorder\<rparr>)"
    by simp
  have b: "features null_check =
       [] @ \<lparr>desc = Val (Str []), check = Val Undefined, respond = Fun recorder\<rparr> #
         [\<lparr>desc = Val (Str (str ''b'')), check = Fun (answers True), respond = Fun recorder\<rparr>]"
    by (simp add: null_check_def world_defs)
  have c: "dispatch (user_message (str ''hi'')) null_check =
       (None, [Checked 1 True, Responded 1], null_check\<lparr>user := [None]\<rparr>)"
    by (simp add: null_check_def world_defs)
  from null_check_is_skipped [OF a b c] a b c show ?thesis
    by simp
qed







text \<open>
  C8. The claim: the check of a command registered under \<open>name\<close> returns true only when
  the text begins with \<open>/name\<close> followed by a whitespace character or by the end of the
  text; \<open>/banana\<close> never matches \<open>ban\<close>, while \<open>/ban\<close> and \<open>/ban extra text\<close> do. The first
  two parts hold in every state: by lemma \<open>command_check_at_lastIndex\<close> the check is true
  exactly when the text begins so and the \<open>lastIndex\<close> of the command's RegExp is 0. The
  last part fails: the RegExp carries the \<open>g\<close> flag, \<open>test\<close> moves \<open>lastIndex\<close> to the end
  of the match, and only \<open>match\<close> in the command's responder resets it. Below, a feature
  with an empty description and a responder that raises is registered before the command
  \<open>ban\<close>, and \<open>listen\<close> sorts the registry. Both match the first message \<open>/ban\<close> and the
  exception ends the dispatch before the responder of the command runs; at the second
  message \<open>/ban\<close> the check of the command answers false. Called twice in a row on
  \<open>/ban\<close>, or on \<open>/ban extra text\<close>, the check answers true, then false.
\<close>

theorem command_check_is_stateful:
  "twice stale_command (str ''/ban'') =
     ([Checked 0 True, Checked 1 True, Responded 0, Raised 0],
      [Checked 0 True, Checked 1 False, Responded 0, Raised 0])
   \<and> check_twice stale_command (str ''/ban'') = (Inr (Bool True), Inr (Bool False))
   \<and> check_twice stale_command (str ''/ban extra text'') = (Inr (Bool True), Inr (Bool False))
   \<and> fst (check_twice stale_command (str ''/banana'')) = Inr (Bool False)
   \<and> starts_command (str ''ban'') (str ''/ban'')
   \<and> starts_command (str ''ban'') (str ''/ban extra text'')"
proof -
  have s: "starts_command (str ''ban'') (str ''/ban'')"
    "starts_command (str ''ban'') (str ''/ban extra text'')"
    "\<not> starts_command (str ''ban'') (str ''/banana'')"
    "after_command (str ''ban'') (str ''/ban'') = []"
    "after_command (str ''ban'') (str ''/ban extra text'') = str ''extra text''"
    by (simp_all add: starts_command_def after_command_def str_def is_space_def)
  have "twice stale_command (str ''/ban'') =
     ([Checked 0 True, Checked 1 True, Responded 0, Raised 0],
      [Checked 0 True, Checked 1 False, Responded 0, Raised 0])"
    by (simp add: twice_def stale_command_eq dispatch_def user_message_def init_def answers_def
        throws_def test_command_regex s) (simp add: str_def)
  moreover have "check_twice stale_command (str ''/ban'') = (Inr (Bool True), Inr (Bool False))"
    "check_twice stale_command (str ''/ban extra text'') = (Inr (Bool True), Inr (Bool False))"
    "fst (check_twice stale_command (str ''/banana'')) = Inr (Bool False)"
    by (simp_all add: check_twice_def stale_command_eq user_message_def init_def
        test_command_regex s) (simp_all add: str_def)
  ultimately show ?thesis
    using s by blast
qed

text \<open>
  C9. The claim: \<open>quote\<close> escapes the characters of the escape set, the check of a literal
  pattern returns true exactly when the literal occurs in the text, and the check gives the
  same answer on every invocation for the same message. The pattern carries the \<open>g\<close> flag,
  so \<open>test\<close> starts at \<open>lastIndex\<close> and moves it: called twice on the text \<open>a.b\<close>, the
  check of the literal \<open>a.b\<close> answers true, then false. This happens between two
  dispatches when the first is ended by the exception of another responder before
  \<open>match\<close> has reset \<open>lastIndex\<close>. With \<open>lastIndex\<close> 0 the check is the substring test.
\<close>

theorem literal_pattern_check_is_stateful:
  "check_twice stale_pattern (str ''a.b'') = (Inr (Bool True), Inr (Bool False))
   \<and> twice stale_pattern (str ''a.b'') =
       ([Checked 0 True, Checked 1 True, Responded 0, Raised 0],
        [Checked 0 True, Checked 1 False, Responded 0, Raised 0])
   \<and> sublist (str ''a.b'') (str ''a.b'')
   \<and> fst (check_twice stale_pattern (str ''axb'')) = Inr (Bool False)
   \<and> quote (str ''a.b'') = [97, 92, 46, 98]
   \<and> fst (test \<lparr>pat = literal Empty s, global = True, lastIndex = 0\<rparr> t) = sublist s t"
proof -
  have "fst (test \<lparr>pat = literal Empty s, global = True, lastIndex = 0\<rparr> t) = sublist s t"
    by (rule test_literal_fresh)
  moreover have "check_twice stale_pattern (str ''a.b'') = (Inr (Bool True), Inr (Bool False))"
    "fst (check_twice stale_pattern (str ''axb'')) = Inr (Bool False)"
    by (simp_all add: check_twice_def stale_pattern_def pattern_literal world_defs literal_def
        test_def str_def)
  moreover have "twice stale_pattern (str ''a.b'') =
       ([Checked 0 True, Checked 1 True, Responded 0, Raised 0],
        [Checked 0 True, Checked 1 False, Responded 0, Raised 0])"
    by (simp add: twice_def stale_pattern_def pattern_literal world_defs literal_def
        test_def str_def)
  moreover have "sublist (str ''a.b'') (str ''a.b'')" "quote (str ''a.b'') = [97, 92, 46, 98]"
    by (simp_all add: quote_def escape_set_def str_def)
  ultimately show ?thesis
    by blast
qed

end
